theory Spec2Isabelle
  imports Main "HOL-Library.Sublist"
begin

section \<open>JavaScript values and text primitives\<close>

text \<open>
  The library is TypeScript; what it computes is decided by a handful of JavaScript
  primitives: string coercion of a value, \<^verbatim>\<open>Array.prototype.join\<close>,
  \<^verbatim>\<open>String.prototype.split\<close>, \<^verbatim>\<open>String.prototype.includes\<close>,
  the \<^verbatim>\<open>in\<close> operator and a global regular-expression replace.  They are
  modelled here as executable functions on \<^typ>\<open>string\<close>.

  A value that can be handed to the library is a string, a number, a boolean, a plain
  object or a function.  A plain object is represented by the text
  \<^verbatim>\<open>JSON.stringify\<close> gives for it; a function by the text
  \<^verbatim>\<open>Function.prototype.toString\<close> gives for it.
  (\<^verbatim>\<open>null\<close>, \<^verbatim>\<open>undefined\<close> and arrays are left out.)

  A number is \<^verbatim>\<open>NaN\<close>, an infinity, or finite.  The library does no arithmetic:
  it only turns a number into text and tests it for truth, and the text of a finite
  number is made from its shortest decimal digits.  So a finite number is given as the
  language standard's \<^verbatim>\<open>Number::toString\<close> takes it apart: a sign
  (\<open>True\<close> for a negative number), the decimal digits \<open>s\<close>, and the position \<open>n\<close>
  of the decimal point, counted from the front of the digits; the number is
  \<open>0.s\<close> times the \<open>n\<close>-th power of ten.  42 is \<open>Finite False 42 2\<close>, 99.99 is
  \<open>Finite False 9999 2\<close>, 0.5 is \<open>Finite False 5 0\<close>, a thousand is
  \<open>Finite False 1 4\<close>, and both zeros have the digits 0.  Which digits the result of
  an arithmetic operation has is the engine's business and no part of the library.
\<close>

datatype number =
    NaN
  | Infinity bool
  | Finite bool nat int

datatype jsval =
    Str string
  | Num number
  | Bool bool
  | Obj string
  | Func string

definition nl :: char where
  "nl = CHR 0x0A"

function show_nat :: "nat \<Rightarrow> string" where
  "show_nat n =
     (if n < 10 then [''0123456789'' ! n]
      else show_nat (n div 10) @ [''0123456789'' ! (n mod 10)])"
  by pat_completeness auto
termination
  by (relation "measure (\<lambda>n. n)") auto

text \<open>The number an integer literal denotes.\<close>

definition whole :: "int \<Rightarrow> number" where
  "whole i = Finite (i < 0) (nat \<bar>i\<bar>) (int (length (show_nat (nat \<bar>i\<bar>))))"

text \<open>
  \<^verbatim>\<open>Number::toString(x)\<close> of the language standard, for radix 10.  First
  \<^verbatim>\<open>NaN\<close>, \<^verbatim>\<open>0\<close> for both zeros, the minus sign of a negative number,
  and \<^verbatim>\<open>Infinity\<close>.  Then the digits are taken with their number \<open>k\<close> as
  small as possible, that is, without trailing zeros (\<open>shortest_digits\<close>).  They
  are laid out by \<open>format_digits\<close>: for \<open>n\<close> from -5 to 21, the digits with
  \<open>n - k\<close> zeros appended when \<open>k \<le> n\<close>, the digits with a point after the first
  \<open>n\<close> of them when \<open>0 < n < k\<close>, and \<^verbatim>\<open>0.\<close>, \<open>-n\<close> zeros and the
  digits when \<open>n \<le> 0\<close>; for any other \<open>n\<close> the first digit, a point and the other
  digits if there are any, the letter \<^verbatim>\<open>e\<close>, and the exponent \<open>n - 1\<close> with
  its sign.
\<close>

definition shortest_digits :: "nat \<Rightarrow> string" where
  "shortest_digits s = rev (dropWhile (\<lambda>c. c = CHR ''0'') (rev (show_nat s)))"

definition format_digits :: "string \<Rightarrow> int \<Rightarrow> string" where
  "format_digits ds n =
     (let k = int (length ds) in
      if - 5 \<le> n \<and> n \<le> 21 then
        (if n \<ge> k then ds @ replicate (nat (n - k)) (CHR ''0'')
         else if n > 0 then take (nat n) ds @ ''.'' @ drop (nat n) ds
         else ''0.'' @ replicate (nat (- n)) (CHR ''0'') @ ds)
      else
        (let e = n - 1;
             c = (if e \<ge> 0 then ''+'' else ''-'');
             es = show_nat (nat \<bar>e\<bar>)
         in if k = 1 then ds @ ''e'' @ c @ es
            else take 1 ds @ ''.'' @ drop 1 ds @ ''e'' @ c @ es))"

fun Number_toString :: "number \<Rightarrow> string" where
  "Number_toString NaN = ''NaN''"
| "Number_toString (Infinity negative) = (if negative then ''-Infinity'' else ''Infinity'')"
| "Number_toString (Finite negative s n) =
     (if s = 0 then ''0''
      else (if negative then ''-'' else []) @ format_digits (shortest_digits s) n)"

text \<open>\<^verbatim>\<open>String(v)\<close>, the coercion a template literal applies to a substitution.\<close>

fun js_toString :: "jsval \<Rightarrow> string" where
  "js_toString (Str s) = s"
| "js_toString (Num x) = Number_toString x"
| "js_toString (Bool b) = (if b then ''true'' else ''false'')"
| "js_toString (Obj j) = ''[object Object]''"
| "js_toString (Func src) = src"

text \<open>\<^verbatim>\<open>xs.join(sep)\<close> on an array of strings.\<close>

fun join :: "string \<Rightarrow> string list \<Rightarrow> string" where
  "join sep [] = []"
| "join sep [x] = x"
| "join sep (x # y # ys) = x @ sep @ join sep (y # ys)"

text \<open>\<^verbatim>\<open>s.split("\n")\<close>: the empty string splits into one empty line.\<close>

fun split_nl :: "string \<Rightarrow> string list" where
  "split_nl [] = [[]]"
| "split_nl (c # cs) =
     (case split_nl cs of
        [] \<Rightarrow> [[c]]
      | l # ls \<Rightarrow> if c = nl then [] # l # ls else (c # l) # ls)"

text \<open>\<^verbatim>\<open>hay.includes(needle)\<close>.\<close>

fun str_includes :: "string \<Rightarrow> string \<Rightarrow> bool" where
  "str_includes [] needle = (needle = [])"
| "str_includes (c # cs) needle = (prefix needle (c # cs) \<or> str_includes cs needle)"

section \<open>Argument mappings and template substitution\<close>

text \<open>
  An argument mapping is a plain object \<^verbatim>\<open>{ [key: string]: any }\<close>: its own
  properties are a finite map.  The object spread \<^verbatim>\<open>{ ...a, ...b }\<close> copies own
  properties, those of \<^verbatim>\<open>b\<close> winning: it is \<^term>\<open>a ++ b\<close>.
\<close>

type_synonym args = "string \<rightharpoonup> jsval"

text \<open>
  The source tests \<^verbatim>\<open>p1 in args\<close> and then reads \<^verbatim>\<open>args[p1]\<close>; the
  model does both in one lookup, \<open>js_get\<close>, where \<open>None\<close> means that the test fails.
  Both follow the prototype chain, and a plain object inherits from
  \<^verbatim>\<open>Object.prototype\<close>, whose members are listed here with the text their value
  coerces to (\<^verbatim>\<open>__proto__\<close> is the prototype object itself, which
  \<^verbatim>\<open>JSON.stringify\<close> renders as an empty object).
\<close>

definition native :: "string \<Rightarrow> jsval" where
  "native name = Func (''function '' @ name @ ''() { [native code] }'')"

definition Object_prototype :: "(string \<times> jsval) list" where
  "Object_prototype =
     [(''constructor'', native ''Object''),
      (''__defineGetter__'', native ''__defineGetter__''),
      (''__defineSetter__'', native ''__defineSetter__''),
      (''hasOwnProperty'', native ''hasOwnProperty''),
      (''__lookupGetter__'', native ''__lookupGetter__''),
      (''__lookupSetter__'', native ''__lookupSetter__''),
      (''isPrototypeOf'', native ''isPrototypeOf''),
      (''propertyIsEnumerable'', native ''propertyIsEnumerable''),
      (''toString'', native ''toString''),
      (''valueOf'', native ''valueOf''),
      (''__proto__'', Obj ''{}''),
      (''toLocaleString'', native ''toLocaleString'')]"

definition js_get :: "args \<Rightarrow> string \<Rightarrow> jsval option" where
  "js_get a k = (case a k of Some v \<Rightarrow> Some v | None \<Rightarrow> map_of Object_prototype k)"

text \<open>
  \<^verbatim>\<open>
  function _stringifyValue(val: any) {
    if (typeof val === "object") { return JSON.stringify(val); }
    return val;
  }\<close>
\<close>

fun stringifyValue :: "jsval \<Rightarrow> jsval" where
  "stringifyValue (Obj j) = Str j"
| "stringifyValue v = v"

text \<open>
  One attempt of the regular expression \<^verbatim>\<open>/\{\{([^}]+)\}\}/\<close> at the start of
  a string: two opening braces, the longest non-empty run of characters other than the
  closing brace, two closing braces.  (A shorter run cannot match: the character after it
  would be one of the run, not a closing brace.)  The result is the captured name and
  the text after the match.
\<close>

definition match_placeholder :: "string \<Rightarrow> (string \<times> string) option" where
  "match_placeholder s =
     (case s of
        a # b # t \<Rightarrow>
          if a = CHR ''{'' \<and> b = CHR ''{'' then
            (let name = takeWhile (\<lambda>c. c \<noteq> CHR ''}'') t;
                 r = dropWhile (\<lambda>c. c \<noteq> CHR ''}'') t
             in if name = [] then None
                else (case r of
                        x # y # r' \<Rightarrow> if y = CHR ''}'' then Some (name, r') else None
                      | _ \<Rightarrow> None))
          else None
      | _ \<Rightarrow> None)"

lemma match_placeholder_shorter:
  "match_placeholder s = Some (name, r) \<Longrightarrow> length r < length s"
proof -
  assume m: "match_placeholder s = Some (name, r)"
  then obtain t where s: "s = CHR ''{'' # CHR ''{'' # t"
    by (auto simp: match_placeholder_def split: list.splits if_splits)
  from m s obtain x y where "dropWhile (\<lambda>c. c \<noteq> CHR ''}'') t = x # y # r"
    by (auto simp: match_placeholder_def Let_def split: list.splits if_splits)
  then have "length r < length (dropWhile (\<lambda>c. c \<noteq> CHR ''}'') t)"
    by simp
  also have "\<dots> \<le> length t"
    by (rule length_dropWhile_le)
  finally show ?thesis using s by simp
qed

text \<open>
  \<^verbatim>\<open>
  function _buildTemplate(template: string, args: { [key: string]: any }): string {
    return template.replace(/\{\{([^}]+)\}\}/g, (match, p1) => {
      if (p1 in args) { return _stringifyValue(args[p1]); }
      console.warn(`Template argument "${p1}" not found in args`);
      return match;
    });
  }\<close>
  The global replace scans from the left; after a match it goes on behind the match, and
  a replacement is never scanned again.  The model returns the text together with the
  warnings written to the console, in order.  (The text behind a match does not depend
  on the replacement, so the model computes it first.)
\<close>

function buildTemplate :: "string \<Rightarrow> args \<Rightarrow> string \<times> string list" where
  "buildTemplate [] a = ([], [])"
| "buildTemplate (c # cs) a =
     (case match_placeholder (c # cs) of
        Some (p1, rest) \<Rightarrow>
          (case buildTemplate rest a of
             (out, warnings) \<Rightarrow>
               (case js_get a p1 of
                  Some v \<Rightarrow> (js_toString (stringifyValue v) @ out, warnings)
                | None \<Rightarrow>
                    (''{{'' @ p1 @ ''}}'' @ out,
                     (''Template argument '' @ [CHR 0x22] @ p1 @ [CHR 0x22]
                        @ '' not found in args'') # warnings)))
      | None \<Rightarrow>
          (case buildTemplate cs a of (out, warnings) \<Rightarrow> (c # out, warnings)))"
  by pat_completeness auto
termination
  by (relation "measure (\<lambda>(s, a). length s)")
     (auto dest: match_placeholder_shorter)

section \<open>The object store\<close>

text \<open>
  A \<^verbatim>\<open>MessageBuilder\<close> is a mutable object: a composer can be a part of several
  composers, and rendering assigns to the \<^verbatim>\<open>args\<close> field of every child it
  visits.  Objects therefore live in a store, addressed by reference.
  \<^verbatim>\<open>
  export class MessageBuilder {
    constructor(private customIndent: string | null = null,
                public args: { [key: string]: any } = {}) {}
    private static indent = "   ";
    private _parts: (any | MessageBuilder)[] = [];
    private get indent() { return this.customIndent ?? MessageBuilder.indent; }
  \<close>
\<close>

type_synonym addr = nat

datatype part = Value jsval | Builder addr

record MessageBuilder =
  customIndent :: "string option"
  args :: args
  parts :: "part list"

datatype ChatMessageRole = System | User | Assistant

fun role_name :: "ChatMessageRole \<Rightarrow> string" where
  "role_name System = ''system''"
| "role_name User = ''user''"
| "role_name Assistant = ''assistant''"

text \<open>
  A \<^verbatim>\<open>PromptBuilder\<close> has the fields \<^verbatim>\<open>args\<close> and
  \<^verbatim>\<open>_messages\<close> (here \<open>prompt_args\<close> and \<open>prompt_messages\<close>).  A stored turn is
  the object
  \<^verbatim>\<open>{ role, content, placeholder: options?.placeholder, ...options?.extra }\<close>.
  The metadata \<^verbatim>\<open>extra\<close> is an open-ended mapping of plain values (the interface
  \<^verbatim>\<open>AIPrompter.BuildingPrompt\<close> is augmented by the caller); it is spread last, so
  a key \<^verbatim>\<open>role\<close>, \<^verbatim>\<open>content\<close> or \<^verbatim>\<open>placeholder\<close> in it
  replaces the property written before it.  The three properties of a stored turn are
  therefore values of any kind: the role is a string unless it was replaced; the content
  is a plain value (the substituted text of a scalar, unless it was replaced) or a
  reference to a composer; the placeholder is \<^verbatim>\<open>undefined\<close> (\<open>None\<close>) or a
  value.  The field \<open>extra\<close> holds the other properties of the object.
\<close>

datatype content = Plain jsval | Composer addr

record message =
  role :: jsval
  content :: content
  placeholder :: "jsval option"
  extra :: args

record PromptBuilder =
  prompt_args :: args
  prompt_messages :: "message list"

text \<open>
  The state of the program: both kinds of objects, the next unused reference, and the
  static field \<^verbatim>\<open>MessageBuilder.indent\<close>.
\<close>

record state =
  builders :: "addr \<Rightarrow> MessageBuilder"
  prompts :: "addr \<Rightarrow> PromptBuilder"
  next_addr :: addr
  global_indent :: string

datatype error = Error string | RangeError

type_synonym 'a outcome = "(error + 'a) \<times> state"

text \<open>
  A builder callback receives the fresh child composer and may change the state in any
  way; it may throw.  There are three kinds.  A synchronous function
  (\<^verbatim>\<open>WithMessageBuilder\<close>) does all its work when called.  A function declared
  \<^verbatim>\<open>async\<close> runs, when called, up to its first \<^verbatim>\<open>await\<close> and returns a
  promise (it never throws to its caller); the rest runs when the promise is awaited, and
  has not run when the promise is dropped.  A function that is not declared
  \<^verbatim>\<open>async\<close> but returns a promise (it is of the type
  \<^verbatim>\<open>WithMessageBuilderAsync\<close> all the same; an \<^verbatim>\<open>async\<close> function
  compiled for an older language level is one) runs its own body when called, where it
  may throw, and the rest belongs to the promise in the same way.  Every function
  carries its source text, which \<^verbatim>\<open>isAsyncFunction\<close> inspects.
\<close>

datatype callback =
    SyncFn string "addr \<Rightarrow> state \<Rightarrow> unit outcome"
  | AsyncFn string "addr \<Rightarrow> state \<Rightarrow> state" "addr \<Rightarrow> state \<Rightarrow> unit outcome"
  | PromiseFn string "addr \<Rightarrow> state \<Rightarrow> unit outcome" "addr \<Rightarrow> state \<Rightarrow> unit outcome"

text \<open>\<^verbatim>\<open>fn(child)\<close>, a returned promise being dropped.\<close>

fun call :: "callback \<Rightarrow> addr \<Rightarrow> state \<Rightarrow> unit outcome" where
  "call (SyncFn src body) child st = body child st"
| "call (AsyncFn src first rest) child st = (Inr (), first child st)"
| "call (PromiseFn src body rest) child st = body child st"

text \<open>\<^verbatim>\<open>await fn(child)\<close>.\<close>

fun await_call :: "callback \<Rightarrow> addr \<Rightarrow> state \<Rightarrow> unit outcome" where
  "await_call (SyncFn src body) child st = body child st"
| "await_call (AsyncFn src first rest) child st = rest child (first child st)"
| "await_call (PromiseFn src body rest) child st =
     (case body child st of
        (Inl e, st1) \<Rightarrow> (Inl e, st1)
      | (Inr u, st1) \<Rightarrow> rest child st1)"

text \<open>
  \<^verbatim>\<open>
  function isAsyncFunction(fn: Function): boolean {
    return (fn instanceof Promise ||
      fn.constructor.name === "AsyncFunction" ||
      fn.toString().includes("async") ||
      Object.prototype.toString.call(fn) === "[object AsyncFunction]");
  }\<close>
  A function is never an instance of \<^verbatim>\<open>Promise\<close>; the constructor of a
  function declared \<^verbatim>\<open>async\<close> is \<^verbatim>\<open>AsyncFunction\<close>, that of any other
  function is \<^verbatim>\<open>Function\<close>, and \<^verbatim>\<open>Object.prototype.toString\<close> names
  the same two classes.
\<close>

definition instanceof_Promise :: "callback \<Rightarrow> bool" where
  "instanceof_Promise fn = False"

fun constructor_name :: "callback \<Rightarrow> string" where
  "constructor_name (SyncFn src body) = ''Function''"
| "constructor_name (AsyncFn src first rest) = ''AsyncFunction''"
| "constructor_name (PromiseFn src body rest) = ''Function''"

fun Function_toString :: "callback \<Rightarrow> string" where
  "Function_toString (SyncFn src body) = src"
| "Function_toString (AsyncFn src first rest) = src"
| "Function_toString (PromiseFn src body rest) = src"

fun Object_toString :: "callback \<Rightarrow> string" where
  "Object_toString (SyncFn src body) = ''[object Function]''"
| "Object_toString (AsyncFn src first rest) = ''[object AsyncFunction]''"
| "Object_toString (PromiseFn src body rest) = ''[object Function]''"

definition isAsyncFunction :: "callback \<Rightarrow> bool" where
  "isAsyncFunction fn \<longleftrightarrow>
     instanceof_Promise fn \<or>
     constructor_name fn = ''AsyncFunction'' \<or>
     str_includes (Function_toString fn) ''async'' \<or>
     Object_toString fn = ''[object AsyncFunction]''"

datatype input = Scalar jsval | Instance addr | Function callback

section \<open>MessageBuilder\<close>

definition new_MessageBuilder :: "string option \<Rightarrow> args \<Rightarrow> state \<Rightarrow> addr \<times> state" where
  "new_MessageBuilder ind a st =
     (next_addr st,
      st\<lparr>builders := (builders st)
            (next_addr st := \<lparr>customIndent = ind, args = a, parts = []\<rparr>),
         next_addr := Suc (next_addr st)\<rparr>)"

definition push_part :: "addr \<Rightarrow> part \<Rightarrow> state \<Rightarrow> state" where
  "push_part this p st =
     st\<lparr>builders := (builders st)
           (this := (builders st this)\<lparr>parts := parts (builders st this) @ [p]\<rparr>)\<rparr>"

text \<open>
  \<^verbatim>\<open>
  add(message: MessageInput | WithMessageBuilder) {
    if (typeof message === "function") {
      if (message instanceof Promise) {
        throw new Error("Unsupported async message. Use addAsync instead.");
      }
      const _message = msg(undefined, this.args);
      const fn = message as WithMessageBuilder;
      fn(_message);
      this._parts.push(_message);
    } else {
      this._parts.push(message);
    }
    return this;
  }\<close>
  \<^verbatim>\<open>msg(undefined, args)\<close> is \<^verbatim>\<open>new MessageBuilder(null, args)\<close>.
\<close>

definition add :: "addr \<Rightarrow> input \<Rightarrow> state \<Rightarrow> addr outcome" where
  "add this message st =
     (case message of
        Function fn \<Rightarrow>
          if instanceof_Promise fn
          then (Inl (Error ''Unsupported async message. Use addAsync instead.''), st)
          else (case new_MessageBuilder None (args (builders st this)) st of
                  (m, st1) \<Rightarrow>
                    (case call fn m st1 of
                       (Inl e, st2) \<Rightarrow> (Inl e, st2)
                     | (Inr u, st2) \<Rightarrow> (Inr this, push_part this (Builder m) st2)))
      | Instance b \<Rightarrow> (Inr this, push_part this (Builder b) st)
      | Scalar v \<Rightarrow> (Inr this, push_part this (Value v) st))"

text \<open>
  \<^verbatim>\<open>
  async addAsync(fn: WithMessageBuilderAsync): Promise<MessageBuilder> {
    const _message = msg(undefined, this.args);
    await fn(_message);
    this._parts.push(_message);
    return this;
  }\<close>
\<close>

definition addAsync :: "addr \<Rightarrow> callback \<Rightarrow> state \<Rightarrow> addr outcome" where
  "addAsync this fn st =
     (case new_MessageBuilder None (args (builders st this)) st of
        (m, st1) \<Rightarrow>
          (case await_call fn m st1 of
             (Inl e, st2) \<Rightarrow> (Inl e, st2)
           | (Inr u, st2) \<Rightarrow> (Inr this, push_part this (Builder m) st2)))"

text \<open>
  \<^verbatim>\<open>
  addKv(key: string, value: any) {
    if (typeof value === "function") {
      if (value instanceof Promise) {
        throw new Error("Unsupported async message. Use addKvAsync instead.");
      }
      const _message = msg(undefined, this.args);
      value(_message);
      this._parts.push(`${key}:`);
      this._parts.push(_message);
    } else if (value instanceof MessageBuilder) {
      this._parts.push(`${key}:`);
      this._parts.push(value);
    } else {
      this._parts.push(`${key}: ${value}`);
    }
    return this;
  }\<close>
\<close>

definition addKv :: "addr \<Rightarrow> string \<Rightarrow> input \<Rightarrow> state \<Rightarrow> addr outcome" where
  "addKv this key val st =
     (case val of
        Function fn \<Rightarrow>
          if instanceof_Promise fn
          then (Inl (Error ''Unsupported async message. Use addKvAsync instead.''), st)
          else (case new_MessageBuilder None (args (builders st this)) st of
                  (m, st1) \<Rightarrow>
                    (case call fn m st1 of
                       (Inl e, st2) \<Rightarrow> (Inl e, st2)
                     | (Inr u, st2) \<Rightarrow>
                         (Inr this,
                          push_part this (Builder m)
                            (push_part this (Value (Str (key @ '':''))) st2))))
      | Instance b \<Rightarrow>
          (Inr this,
           push_part this (Builder b) (push_part this (Value (Str (key @ '':''))) st))
      | Scalar v \<Rightarrow>
          (Inr this, push_part this (Value (Str (key @ '': '' @ js_toString v))) st))"

text \<open>
  The class declares \<^verbatim>\<open>build\<close> and \<^verbatim>\<open>toJSON\<close> and neither
  \<^verbatim>\<open>toString\<close>, \<^verbatim>\<open>valueOf\<close> nor \<^verbatim>\<open>Symbol.toPrimitive\<close>:
  a template literal coerces an instance through \<^verbatim>\<open>Object.prototype.toString\<close>.
  (\<^verbatim>\<open>toJSON\<close> is what \<^verbatim>\<open>JSON.stringify\<close> calls.)
\<close>

definition MessageBuilder_toString :: "addr \<Rightarrow> state \<Rightarrow> string" where
  "MessageBuilder_toString this st = ''[object Object]''"

text \<open>
  \<^verbatim>\<open>
  async addKvAsync(key: string, fn: WithMessageBuilderAsync): Promise<MessageBuilder> {
    const _message = msg(undefined, this.args);
    await fn(_message);
    this._parts.push(`${key}: ${_message}`);
    return this;
  }\<close>
\<close>

definition addKvAsync :: "addr \<Rightarrow> string \<Rightarrow> callback \<Rightarrow> state \<Rightarrow> addr outcome" where
  "addKvAsync this key fn st =
     (case new_MessageBuilder None (args (builders st this)) st of
        (m, st1) \<Rightarrow>
          (case await_call fn m st1 of
             (Inl e, st2) \<Rightarrow> (Inl e, st2)
           | (Inr u, st2) \<Rightarrow>
               (Inr this,
                push_part this
                  (Value (Str (key @ '': '' @ MessageBuilder_toString m st2))) st2)))"

text \<open>
  \<^verbatim>\<open>
  build(withIntent: boolean = false, indent: string | null = null): string {
    const int = indent ?? this.indent;
    const parts = this._parts.map((p) => {
      let str: string | null = null;
      if (p instanceof MessageBuilder) {
        p.args = { ...this.args, ...p.args };
        str = p.build(true, int);
      } else {
        str = _buildTemplate(`${_stringifyValue(p)}`, this.args);
      }
      if (withIntent) {
        return str.split("\n").map((line) => `${int}${line}`).join(`\n`);
      }
      return str;
    });
    return parts.join("\n");
  }\<close>
  The recursion has no base case of its own: it ends where a composer has no composer
  among its parts.  The first argument of \<open>build\<close> is the number of nested calls the
  engine's stack still allows; when it is used up the call throws
  \<^verbatim>\<open>RangeError\<close>, which is how a composer that contains itself ends.
  (The source's local \<^verbatim>\<open>int\<close> is \<open>indt\<close> here.)
\<close>

definition indent_lines :: "string \<Rightarrow> string \<Rightarrow> string" where
  "indent_lines indt str = join [nl] (map (\<lambda>line. indt @ line) (split_nl str))"

definition set_args :: "addr \<Rightarrow> args \<Rightarrow> state \<Rightarrow> state" where
  "set_args p a st = st\<lparr>builders := (builders st)(p := (builders st p)\<lparr>args := a\<rparr>)\<rparr>"

text \<open>The first half of the callback given to \<^verbatim>\<open>map\<close>: the text of one part.\<close>

definition render_part ::
  "(addr \<Rightarrow> bool \<Rightarrow> string option \<Rightarrow> state \<Rightarrow> string outcome) \<Rightarrow>
   addr \<Rightarrow> string \<Rightarrow> part \<Rightarrow> state \<Rightarrow> string outcome" where
  "render_part rec this indt p st =
     (case p of
        Builder c \<Rightarrow>
          rec c True (Some indt)
            (set_args c (args (builders st this) ++ args (builders st c)) st)
      | Value v \<Rightarrow>
          (Inr (fst (buildTemplate (js_toString (stringifyValue v))
                       (args (builders st this)))), st))"

primrec build_parts ::
  "(addr \<Rightarrow> bool \<Rightarrow> string option \<Rightarrow> state \<Rightarrow> string outcome) \<Rightarrow>
   addr \<Rightarrow> bool \<Rightarrow> string \<Rightarrow> part list \<Rightarrow> state \<Rightarrow> string list outcome" where
  "build_parts rec this withIntent indt [] st = (Inr [], st)"
| "build_parts rec this withIntent indt (p # ps) st =
     (case render_part rec this indt p st of
        (Inl e, st1) \<Rightarrow> (Inl e, st1)
      | (Inr str, st1) \<Rightarrow>
          (case build_parts rec this withIntent indt ps st1 of
             (Inl e, st2) \<Rightarrow> (Inl e, st2)
           | (Inr strs, st2) \<Rightarrow>
               (Inr ((if withIntent then indent_lines indt str else str) # strs), st2)))"

definition effective_indent :: "string option \<Rightarrow> addr \<Rightarrow> state \<Rightarrow> string" where
  "effective_indent ind this st =
     (case ind of
        Some i \<Rightarrow> i
      | None \<Rightarrow> (case customIndent (builders st this) of
                   Some c \<Rightarrow> c
                 | None \<Rightarrow> global_indent st))"

primrec build :: "nat \<Rightarrow> addr \<Rightarrow> bool \<Rightarrow> string option \<Rightarrow> state \<Rightarrow> string outcome" where
  "build 0 this withIntent ind st = (Inl RangeError, st)"
| "build (Suc n) this withIntent ind st =
     (case build_parts (build n) this withIntent (effective_indent ind this st)
             (parts (builders st this)) st of
        (Inl e, st1) \<Rightarrow> (Inl e, st1)
      | (Inr strs, st1) \<Rightarrow> (Inr (join [nl] strs), st1))"

text \<open>
  \<^verbatim>\<open>static setGlobalIndent(indent: string) { MessageBuilder.indent = indent; }\<close>
  When the module is loaded there are no objects and the static indentation is three
  spaces.
\<close>

definition setGlobalIndent :: "string \<Rightarrow> state \<Rightarrow> state" where
  "setGlobalIndent i st = st\<lparr>global_indent := i\<rparr>"

definition init_state :: state where
  "init_state =
     \<lparr>builders = (\<lambda>a. \<lparr>customIndent = None, args = Map.empty, parts = []\<rparr>),
      prompts = (\<lambda>a. \<lparr>prompt_args = Map.empty, prompt_messages = []\<rparr>),
      next_addr = 0,
      global_indent = ''   ''\<rparr>"

section \<open>PromptBuilder\<close>

record options =
  opt_placeholder :: "string option"
  opt_extra :: "args option"

definition new_PromptBuilder :: "args \<Rightarrow> state \<Rightarrow> addr \<times> state" where
  "new_PromptBuilder a st =
     (next_addr st,
      st\<lparr>prompts := (prompts st)
            (next_addr st := \<lparr>prompt_args = a, prompt_messages = []\<rparr>),
         next_addr := Suc (next_addr st)\<rparr>)"

text \<open>
  The object literal
  \<^verbatim>\<open>{ role, content, placeholder: options?.placeholder, ...options?.extra }\<close>:
  the properties \<^verbatim>\<open>role\<close>, \<^verbatim>\<open>content\<close> and
  \<^verbatim>\<open>placeholder\<close> are written first and the own properties of
  \<^verbatim>\<open>options.extra\<close> are copied over them.
\<close>

definition the_extra :: "options option \<Rightarrow> args" where
  "the_extra opts =
     (case opts of
        None \<Rightarrow> Map.empty
      | Some opt \<Rightarrow> (case opt_extra opt of None \<Rightarrow> Map.empty | Some e \<Rightarrow> e))"

definition make_message :: "ChatMessageRole \<Rightarrow> content \<Rightarrow> options option \<Rightarrow> message" where
  "make_message r c opts =
     \<lparr>role = (case the_extra opts ''role'' of
                Some v \<Rightarrow> v
              | None \<Rightarrow> Str (role_name r)),
      content = (case the_extra opts ''content'' of
                   Some v \<Rightarrow> Plain v
                 | None \<Rightarrow> c),
      placeholder = (case the_extra opts ''placeholder'' of
                       Some v \<Rightarrow> Some v
                     | None \<Rightarrow>
                         (case opts of
                            None \<Rightarrow> None
                          | Some opt \<Rightarrow> map_option Str (opt_placeholder opt))),
      extra = the_extra opts |` (- {''role'', ''content'', ''placeholder''})\<rparr>"

definition push_message :: "addr \<Rightarrow> message \<Rightarrow> state \<Rightarrow> state" where
  "push_message this m st =
     st\<lparr>prompts := (prompts st)
           (this := (prompts st this)
              \<lparr>prompt_messages := prompt_messages (prompts st this) @ [m]\<rparr>)\<rparr>"

text \<open>
  \<^verbatim>\<open>
  _push(message: MessageInput | WithMessageBuilder, role: ChatMessageRole,
        options?: { placeholder?: string; extra?: AIPrompter.BuildingPrompt }): PromptBuilder {
    if (typeof message === "function") {
      if (isAsyncFunction(message)) {
        throw new Error(
          `Async function cannot be used with non-async message method. Use ${role}MessageAsync instead.`);
      }
      const _message = msg(undefined, this.args);
      message(_message);
      this._messages.push({ role, content: _message,
        placeholder: options?.placeholder, ...options?.extra });
      return this;
    } else if (message instanceof MessageBuilder) {
      this._messages.push({ role, content: message,
        placeholder: options?.placeholder, ...options?.extra });
      return this;
    }
    this._messages.push({ role, content: _buildTemplate(`${message}`, this.args),
      placeholder: options?.placeholder, ...options?.extra });
    return this;
  }\<close>
\<close>

definition push ::
  "addr \<Rightarrow> input \<Rightarrow> ChatMessageRole \<Rightarrow> options option \<Rightarrow> state \<Rightarrow> addr outcome" where
  "push this message r opts st =
     (case message of
        Function fn \<Rightarrow>
          if isAsyncFunction fn
          then (Inl (Error (''Async function cannot be used with non-async message method. Use ''
                              @ role_name r @ ''MessageAsync instead.'')), st)
          else (case new_MessageBuilder None (prompt_args (prompts st this)) st of
                  (m, st1) \<Rightarrow>
                    (case call fn m st1 of
                       (Inl e, st2) \<Rightarrow> (Inl e, st2)
                     | (Inr u, st2) \<Rightarrow>
                         (Inr this, push_message this (make_message r (Composer m) opts) st2)))
      | Instance b \<Rightarrow> (Inr this, push_message this (make_message r (Composer b) opts) st)
      | Scalar v \<Rightarrow>
          (Inr this,
           push_message this
             (make_message r
                (Plain (Str (fst (buildTemplate (js_toString v)
                                   (prompt_args (prompts st this))))))
                opts) st))"


definition userMessage :: "addr \<Rightarrow> input \<Rightarrow> options option \<Rightarrow> state \<Rightarrow> addr outcome" where
  "userMessage this message opts st = push this message User opts st"


definition systemMessage :: "addr \<Rightarrow> input \<Rightarrow> options option \<Rightarrow> state \<Rightarrow> addr outcome" where
  "systemMessage this message opts st = push this message System opts st"




text \<open>
  Both build methods start with
  \<^verbatim>\<open>
    const _filter = filter ? (e: any) => filter(e) : () => true;
    ... this._messages.filter(_filter).map((m) => {
      if (m.content instanceof MessageBuilder) {
        m.content.args = { ...this.args, ...m.content.args };
        return { role: m.role, content: m.content.build(), placeholder: m.placeholder };
      }
      return { role: m.role, content: m.content.toString(), placeholder: m.placeholder };
    });\<close>
  The predicate is applied to the stored turns; a predicate is a pure function here.
  The turns that are kept are then resolved in order, each to its role, its text and its
  placeholder (\<^verbatim>\<open>build\<close> leaves the placeholder out).
\<close>

type_synonym MessageFilter = "message \<Rightarrow> bool"

type_synonym resolved = "jsval \<times> string \<times> jsval option"

definition the_filter :: "MessageFilter option \<Rightarrow> message \<Rightarrow> bool" where
  "the_filter flt e = (case flt of Some f \<Rightarrow> f e | None \<Rightarrow> True)"

definition resolve :: "nat \<Rightarrow> addr \<Rightarrow> message \<Rightarrow> state \<Rightarrow> resolved outcome" where
  "resolve n this m st =
     (case content m of
        Composer c \<Rightarrow>
          (case build n c False None
                  (set_args c (prompt_args (prompts st this) ++ args (builders st c)) st) of
             (Inl e, st1) \<Rightarrow> (Inl e, st1)
           | (Inr txt, st1) \<Rightarrow> (Inr (role m, txt, placeholder m), st1))
      | Plain v \<Rightarrow> (Inr (role m, js_toString v, placeholder m), st))"

primrec resolve_all :: "nat \<Rightarrow> addr \<Rightarrow> message list \<Rightarrow> state \<Rightarrow> resolved list outcome" where
  "resolve_all n this [] st = (Inr [], st)"
| "resolve_all n this (m # ms) st =
     (case resolve n this m st of
        (Inl e, st1) \<Rightarrow> (Inl e, st1)
      | (Inr r, st1) \<Rightarrow>
          (case resolve_all n this ms st1 of
             (Inl e, st2) \<Rightarrow> (Inl e, st2)
           | (Inr rs, st2) \<Rightarrow> (Inr (r # rs), st2)))"

text \<open>
  \<^verbatim>\<open>build(filter?: MessageFilter): ChatMessage[]\<close>: the list of
  \<^verbatim>\<open>{ role, content }\<close>.
\<close>

definition PromptBuilder_build ::
  "nat \<Rightarrow> addr \<Rightarrow> MessageFilter option \<Rightarrow> state \<Rightarrow> (jsval \<times> string) list outcome" where
  "PromptBuilder_build n this flt st =
     (case resolve_all n this
             (filter (the_filter flt) (prompt_messages (prompts st this))) st of
        (Inl e, st1) \<Rightarrow> (Inl e, st1)
      | (Inr rs, st1) \<Rightarrow> (Inr (map (\<lambda>(r, c, p). (r, c)) rs), st1))"

text \<open>
  \<^verbatim>\<open>
    let contextParts: string[] = [];
    let msgs: ThreadMessage[] = [];
    for (const message of messages) {
      if (message.role === "system") {
        contextParts.push(message.content);
      } else {
        if (message.placeholder) { contextParts.push(`${message.placeholder}`); }
        msgs.push({ role: message.role, content: message.content });
      }
    }
    return { messages: msgs,
             context: contextParts.length > 0 ? contextParts.join("\n") : undefined };\<close>
  The test \<^verbatim>\<open>if (message.placeholder)\<close> is the language's
  \<^verbatim>\<open>ToBoolean\<close>: \<^verbatim>\<open>undefined\<close>, the empty string, the zeros,
  \<^verbatim>\<open>NaN\<close> and \<^verbatim>\<open>false\<close> fail it.
\<close>

fun ToBoolean :: "jsval \<Rightarrow> bool" where
  "ToBoolean (Str s) = (s \<noteq> [])"
| "ToBoolean (Num x) = (case x of NaN \<Rightarrow> False | Infinity negative \<Rightarrow> True
                       | Finite negative s n \<Rightarrow> s \<noteq> 0)"
| "ToBoolean (Bool b) = b"
| "ToBoolean (Obj j) = True"
| "ToBoolean (Func src) = True"

fun truthy :: "jsval option \<Rightarrow> bool" where
  "truthy None = False"
| "truthy (Some v) = ToBoolean v"

fun assistant_loop ::
  "resolved list \<Rightarrow> string list \<Rightarrow> (jsval \<times> string) list \<Rightarrow>
   string list \<times> (jsval \<times> string) list" where
  "assistant_loop [] contextParts msgs = (contextParts, msgs)"
| "assistant_loop ((r, c, p) # ms) contextParts msgs =
     (if r = Str ''system'' then assistant_loop ms (contextParts @ [c]) msgs
      else assistant_loop ms
             (if truthy p then contextParts @ [js_toString (the p)] else contextParts)
             (msgs @ [(r, c)]))"

text \<open>The result \<^verbatim>\<open>{ messages, context }\<close>; \<open>None\<close> is \<^verbatim>\<open>undefined\<close>.\<close>

record assistant_result =
  out_messages :: "(jsval \<times> string) list"
  out_context :: "string option"

definition buildForAssistant ::
  "nat \<Rightarrow> addr \<Rightarrow> MessageFilter option \<Rightarrow> state \<Rightarrow> assistant_result outcome" where
  "buildForAssistant n this flt st =
     (case resolve_all n this
             (filter (the_filter flt) (prompt_messages (prompts st this))) st of
        (Inl e, st1) \<Rightarrow> (Inl e, st1)
      | (Inr rs, st1) \<Rightarrow>
          (case assistant_loop rs [] [] of
             (contextParts, msgs) \<Rightarrow>
               (Inr \<lparr>out_messages = msgs,
                     out_context = (if length contextParts > 0
                                    then Some (join [nl] contextParts) else None)\<rparr>, st1)))"

section \<open>The text of a number\<close>

text \<open>
  Integers and decimal fractions are written out (\<^verbatim>\<open>42\<close>,
  \<^verbatim>\<open>99.99\<close>, \<^verbatim>\<open>-0.5\<close>); from \<^verbatim>\<open>1e21\<close> on, and below
  \<^verbatim>\<open>0.000001\<close>, the text has an exponent.
\<close>

lemma number_text_examples:
  "Number_toString (whole 42) = ''42''
   \<and> Number_toString (Finite False 9999 2) = ''99.99''
   \<and> Number_toString (Finite False 1 22) = ''1e+21''
   \<and> Number_toString (Finite True 5 0) = ''-0.5''
   \<and> Number_toString (Finite False 1 (- 6)) = ''1e-7''
   \<and> Number_toString (Finite True 0 1) = ''0''
   \<and> Number_toString NaN = ''NaN''
   \<and> Number_toString (Infinity True) = ''-Infinity''"
  by (simp add: whole_def shortest_digits_def format_digits_def)

lemma number_text_zeros:
  "Number_toString (Finite False 1 21) = ''100000000000000000000''
   \<and> Number_toString (Finite False 1 (- 5)) = ''0.000001''"
  by code_simp

section \<open>Template substitution\<close>

lemma match_placeholder_None:
  "\<not> prefix ''{{'' s \<Longrightarrow> match_placeholder s = None"
  by (auto simp: match_placeholder_def split: list.splits)


text \<open>A text without two adjacent opening braces is returned as it is, silently.\<close>

lemma buildTemplate_single_brace:
  "\<not> str_includes s ''{{'' \<Longrightarrow> buildTemplate s a = (s, [])"
  by (induction s) (simp_all add: match_placeholder_None)

text \<open>
  A placeholder whose name is neither a property of the mapping nor inherited stays in
  the text, and one warning is written for it.
\<close>

lemma buildTemplate_unknown:
  assumes "match_placeholder s = Some (name, rest)" and "js_get a name = None"
  shows "buildTemplate s a =
           (''{{'' @ name @ ''}}'' @ fst (buildTemplate rest a),
            (''Template argument '' @ [CHR 0x22] @ name @ [CHR 0x22] @ '' not found in args'')
              # snd (buildTemplate rest a))"
  using assms by (cases s) (auto simp: match_placeholder_def split: prod.splits)











text \<open>
  C9.  \<^verbatim>\<open>_buildTemplate("{{toString}}", {})\<close>: the name is not a key of the empty
  mapping, but \<^verbatim>\<open>"toString" in {}\<close> holds through \<^verbatim>\<open>Object.prototype\<close>, so
  the placeholder is replaced by the text of the inherited function and nothing is
  written to the console.  A name that is not inherited, as in
  \<^verbatim>\<open>_buildTemplate("{{name}}", {})\<close>, stays in the text with one warning.
\<close>

theorem buildTemplate_substitutes_inherited_name:
  "buildTemplate ''{{toString}}'' Map.empty
     = (''function toString() { [native code] }'', [])
   \<and> buildTemplate ''{{name}}'' Map.empty
     = (''{{name}}'',
        [''Template argument '' @ [CHR 0x22] @ ''name'' @ [CHR 0x22] @ '' not found in args''])"
  by (simp add: match_placeholder_def js_get_def Object_prototype_def native_def)

section \<open>Asynchronous callbacks\<close>

text \<open>
  Two objects used in the examples below: the callback
  \<^verbatim>\<open>async (b) => { b.add("x") }\<close>, whose body has no \<^verbatim>\<open>await\<close>, and the
  state after \<^verbatim>\<open>const m = new MessageBuilder()\<close> in a freshly loaded module
  (\<^verbatim>\<open>m\<close> is the object at reference 0).
\<close>

definition async_add_x :: callback where
  "async_add_x =
     AsyncFn (''async (b) => { b.add('' @ [CHR 0x22] @ ''x'' @ [CHR 0x22] @ '') }'')
       (\<lambda>b st. snd (add b (Scalar (Str ''x'')) st)) (\<lambda>b st. (Inr (), st))"

definition one_builder :: state where
  "one_builder = snd (new_MessageBuilder None Map.empty init_state)"





text \<open>
  C4.  \<^verbatim>\<open>add\<close> and \<^verbatim>\<open>addKv\<close> guard with
  \<^verbatim>\<open>message instanceof Promise\<close>, which no function satisfies.  Given a function
  declared \<^verbatim>\<open>async\<close> they do not throw: they create the child, run the callback
  up to its first \<^verbatim>\<open>await\<close>, drop the promise and append the child.
\<close>

theorem add_and_addKv_accept_async_callback:
  "add this (Function (AsyncFn src first rest)) st =
     (Inr this,
      push_part this (Builder (next_addr st))
        (first (next_addr st)
           (snd (new_MessageBuilder None (args (builders st this)) st))))
   \<and> addKv this key (Function (AsyncFn src first rest)) st =
     (Inr this,
      push_part this (Builder (next_addr st))
        (push_part this (Value (Str (key @ '':'')))
           (first (next_addr st)
              (snd (new_MessageBuilder None (args (builders st this)) st)))))"
  by (simp add: add_def addKv_def instanceof_Promise_def new_MessageBuilder_def)

lemma add_async_example:
  "fst (add 0 (Function async_add_x) one_builder) = Inr 0
   \<and> parts (builders (snd (add 0 (Function async_add_x) one_builder)) 0) = [Builder 1]"
  by (simp add: add_def instanceof_Promise_def new_MessageBuilder_def async_add_x_def
      one_builder_def init_state_def push_part_def)

text \<open>
  C3.  After \<^verbatim>\<open>await m.addKvAsync("k", async (b) => { b.add("x") })\<close> the composer
  has one part, the string \<^verbatim>\<open>k: [object Object]\<close>: the child (reference 1), which
  renders to \<^verbatim>\<open>x\<close>, was coerced by the template literal and not rendered.
\<close>

lemma addKvAsync_part:
  assumes "await_call fn (next_addr st)
             (snd (new_MessageBuilder None (args (builders st this)) st)) = (Inr u, st2)"
  shows "addKvAsync this key fn st =
           (Inr this, push_part this (Value (Str (key @ '': [object Object]''))) st2)"
  using assms by (simp add: addKvAsync_def new_MessageBuilder_def MessageBuilder_toString_def)

theorem addKvAsync_appends_object_Object:
  "fst (addKvAsync 0 ''k'' async_add_x one_builder) = Inr 0
   \<and> parts (builders (snd (addKvAsync 0 ''k'' async_add_x one_builder)) 0)
       = [Value (Str ''k: [object Object]'')]
   \<and> fst (build 1 1 False None (snd (addKvAsync 0 ''k'' async_add_x one_builder)))
       = Inr ''x''
   \<and> fst (build 1 0 False None (snd (addKvAsync 0 ''k'' async_add_x one_builder)))
       = Inr ''k: [object Object]''"
  by (simp add: add_def addKvAsync_def MessageBuilder_toString_def new_MessageBuilder_def
      async_add_x_def one_builder_def init_state_def push_part_def effective_indent_def
      render_part_def match_placeholder_def)

section \<open>What rendering reads and writes\<close>

text \<open>
  Rendering assigns to the \<^verbatim>\<open>args\<close> of the composers below the one rendered.
  \<open>descendants n h a\<close> lists them in the order \<^verbatim>\<open>build\<close> visits them, as
  far as \<open>n\<close> nested calls reach, a composer once for every way it is reached.
\<close>

primrec descendants :: "nat \<Rightarrow> (addr \<Rightarrow> MessageBuilder) \<Rightarrow> addr \<Rightarrow> addr list" where
  "descendants 0 h a = []"
| "descendants (Suc n) h a =
     concat (map (\<lambda>p. case p of Value v \<Rightarrow> [] | Builder c \<Rightarrow> c # descendants n h c)
               (parts (h a)))"

definition below :: "nat \<Rightarrow> (addr \<Rightarrow> MessageBuilder) \<Rightarrow> part list \<Rightarrow> addr list" where
  "below n h ps =
     concat (map (\<lambda>p. case p of Value v \<Rightarrow> [] | Builder c \<Rightarrow> c # descendants n h c) ps)"

lemma descendants_Suc: "descendants (Suc n) h a = below n h (parts (h a))"
  by (simp add: below_def)

lemma below_Nil [simp]: "below n h [] = []"
  by (simp add: below_def)

lemma below_Value [simp]: "below n h (Value v # ps) = below n h ps"
  by (simp add: below_def)

lemma below_Builder [simp]:
  "below n h (Builder c # ps) = c # descendants n h c @ below n h ps"
  by (simp add: below_def)

text \<open>What rendering leaves alone: everything but the \<^verbatim>\<open>args\<close> fields.\<close>

definition same_shape :: "state \<Rightarrow> state \<Rightarrow> bool" where
  "same_shape s t \<longleftrightarrow>
     global_indent s = global_indent t \<and> prompts s = prompts t \<and> next_addr s = next_addr t \<and>
     (\<forall>x. parts (builders s x) = parts (builders t x)
        \<and> customIndent (builders s x) = customIndent (builders t x))"

lemma same_shape_refl [simp]: "same_shape s s"
  by (simp add: same_shape_def)

lemma same_shape_trans: "same_shape s t \<Longrightarrow> same_shape t u \<Longrightarrow> same_shape s u"
  by (simp add: same_shape_def)

lemma same_shape_set_args [simp]: "same_shape s (set_args c a s)"
  by (simp add: same_shape_def set_args_def)

lemma descendants_shape:
  "(\<And>x. parts (h x) = parts (h' x)) \<Longrightarrow> descendants n h a = descendants n h' a"
proof (induction n arbitrary: a)
  case 0
  show ?case by simp
next
  case (Suc n)
  have "(case p of Value v \<Rightarrow> [] | Builder c \<Rightarrow> c # descendants n h c)
      = (case p of Value v \<Rightarrow> [] | Builder c \<Rightarrow> c # descendants n h' c)" for p
    using Suc by (cases p) simp_all
  then show ?case
    using Suc.prems by simp
qed

lemma same_shape_descendants:
  "same_shape s t \<Longrightarrow> descendants n (builders s) a = descendants n (builders t) a"
  by (rule descendants_shape) (simp add: same_shape_def)

lemma same_shape_below:
  "same_shape s t \<Longrightarrow> below n (builders s) ps = below n (builders t) ps"
proof (induction ps)
  case Nil
  show ?case by simp
next
  case (Cons p ps)
  then show ?case
    by (cases p) (simp_all add: same_shape_descendants[of s t])
qed

lemma build_parts_Cons_snd:
  "snd (build_parts rec a w indt (p # ps) st) =
     (case render_part rec a indt p st of
        (Inl e, s1) \<Rightarrow> s1
      | (Inr str, s1) \<Rightarrow> snd (build_parts rec a w indt ps s1))"
  by (simp split: prod.splits sum.splits)

lemma build_parts_Cons_fst:
  "fst (build_parts rec a w indt (p # ps) st) =
     (case render_part rec a indt p st of
        (Inl e, s1) \<Rightarrow> Inl e
      | (Inr str, s1) \<Rightarrow>
          (case fst (build_parts rec a w indt ps s1) of
             Inl e \<Rightarrow> Inl e
           | Inr strs \<Rightarrow> Inr ((if w then indent_lines indt str else str) # strs)))"
  by (simp split: prod.splits sum.splits)

lemma build_parts_Cons_Inr:
  "build_parts rec a w i (p # ps) st = (Inr segs, st') \<longleftrightarrow>
     (\<exists>str s1 strs. render_part rec a i p st = (Inr str, s1)
        \<and> build_parts rec a w i ps s1 = (Inr strs, st')
        \<and> segs = (if w then indent_lines i str else str) # strs)"
  by (cases w) (auto split: prod.splits sum.splits)

lemma build_Suc_snd:
  "snd (build (Suc n) a w ind st) =
     snd (build_parts (build n) a w (effective_indent ind a st) (parts (builders st a)) st)"
  by (simp split: prod.splits sum.splits)

lemma build_Suc_fst:
  "fst (build (Suc n) a w ind st) =
     map_sum id (join [nl])
       (fst (build_parts (build n) a w (effective_indent ind a st) (parts (builders st a)) st))"
  by (simp split: prod.splits sum.splits)

lemma render_part_shape:
  assumes "\<And>c w ind st. same_shape st (snd (rec c w ind st))"
  shows "same_shape st (snd (render_part rec a indt p st))"
proof (cases p)
  case (Value v)
  then show ?thesis by (simp add: render_part_def)
next
  case (Builder c)
  have "same_shape st (set_args c (args (builders st a) ++ args (builders st c)) st)"
    by simp
  moreover have "same_shape (set_args c (args (builders st a) ++ args (builders st c)) st)
      (snd (rec c True (Some indt)
              (set_args c (args (builders st a) ++ args (builders st c)) st)))"
    by (rule assms)
  ultimately have "same_shape st
      (snd (rec c True (Some indt)
              (set_args c (args (builders st a) ++ args (builders st c)) st)))"
    by (rule same_shape_trans)
  then show ?thesis
    using Builder by (simp add: render_part_def)
qed

lemma build_parts_shape:
  assumes "\<And>c w ind st. same_shape st (snd (rec c w ind st))"
  shows "same_shape st (snd (build_parts rec a w indt ps st))"
proof (induction ps arbitrary: st)
  case Nil
  show ?case by simp
next
  case (Cons p ps)
  have r: "same_shape st (snd (render_part rec a indt p st))"
    by (rule render_part_shape) (rule assms)
  show ?case
  proof (cases "render_part rec a indt p st")
    case (Pair res s1)
    with r have s1: "same_shape st s1" by simp
    show ?thesis
    proof (cases res)
      case (Inl e)
      with Pair s1 show ?thesis by (simp only: build_parts_Cons_snd) simp
    next
      case (Inr str)
      have "same_shape s1 (snd (build_parts rec a w indt ps s1))"
        by (rule Cons.IH)
      with s1 have "same_shape st (snd (build_parts rec a w indt ps s1))"
        by (rule same_shape_trans)
      with Pair Inr show ?thesis
        by (simp only: build_parts_Cons_snd) simp
    qed
  qed
qed

lemma build_shape: "same_shape st (snd (build n a w ind st))"
proof (induction n arbitrary: a w ind st)
  case 0
  show ?case by simp
next
  case (Suc n)
  have "same_shape st (snd (build_parts (build n) a w indt ps st))" for indt ps
    by (rule build_parts_shape) (rule Suc.IH)
  then show ?case
    by (simp only: build_Suc_snd)
qed

lemma same_shape_eq: "same_shape s t \<Longrightarrow> builders s = builders t \<Longrightarrow> s = t"
  by (cases s; cases t) (simp add: same_shape_def)

text \<open>Rendering a composer writes only to the composers below it.\<close>

lemma set_args_other [simp]: "x \<noteq> c \<Longrightarrow> builders (set_args c a st) x = builders st x"
  by (simp add: set_args_def)

lemma set_args_self [simp]:
  "builders (set_args c a st) c = (builders st c)\<lparr>args := a\<rparr>"
  by (simp add: set_args_def)

lemma render_part_frame:
  assumes rec: "\<And>c w ind st. x \<notin> set (descendants n (builders st) c) \<Longrightarrow>
                  builders (snd (rec c w ind st)) x = builders st x"
      and x: "x \<notin> set (below n (builders st) [p])"
  shows "builders (snd (render_part rec a indt p st)) x = builders st x"
proof (cases p)
  case (Value v)
  then show ?thesis by (simp add: render_part_def)
next
  case (Builder c)
  let ?s1 = "set_args c (args (builders st a) ++ args (builders st c)) st"
  from x Builder have xc: "x \<noteq> c" and xd: "x \<notin> set (descendants n (builders st) c)"
    by simp_all
  have "descendants n (builders st) c = descendants n (builders ?s1) c"
    by (rule same_shape_descendants) simp
  with xd have "builders (snd (rec c True (Some indt) ?s1)) x = builders ?s1 x"
    by (intro rec) simp
  with xc Builder show ?thesis
    by (simp add: render_part_def)
qed

lemma build_parts_frame:
  assumes rec: "\<And>c w ind st. x \<notin> set (descendants n (builders st) c) \<Longrightarrow>
                  builders (snd (rec c w ind st)) x = builders st x"
      and shape: "\<And>c w ind st. same_shape st (snd (rec c w ind st))"
  shows "x \<notin> set (below n (builders st) ps) \<Longrightarrow>
           builders (snd (build_parts rec a w indt ps st)) x = builders st x"
proof (induction ps arbitrary: st)
  case Nil
  show ?case by simp
next
  case (Cons p ps)
  from Cons.prems have xp: "x \<notin> set (below n (builders st) [p])"
    and xps: "x \<notin> set (below n (builders st) ps)"
    by (cases p; simp)+
  have h: "builders (snd (render_part rec a indt p st)) x = builders st x"
    using rec xp by (rule render_part_frame)
  have sh: "same_shape st (snd (render_part rec a indt p st))"
    by (rule render_part_shape) (rule shape)
  show ?case
  proof (cases "render_part rec a indt p st")
    case (Pair res s1)
    show ?thesis
    proof (cases res)
      case (Inl e)
      with Pair h show ?thesis
        by (simp only: build_parts_Cons_snd) simp
    next
      case (Inr str)
      from sh Pair have "below n (builders st) ps = below n (builders s1) ps"
        by (simp add: same_shape_below)
      with xps have "builders (snd (build_parts rec a w indt ps s1)) x = builders s1 x"
        by (intro Cons.IH) simp
      with Pair Inr h show ?thesis
        by (simp only: build_parts_Cons_snd) simp
    qed
  qed
qed

lemma build_frame:
  "x \<notin> set (descendants n (builders st) a) \<Longrightarrow>
     builders (snd (build n a w ind st)) x = builders st x"
proof (induction n arbitrary: a w ind st)
  case 0
  show ?case by simp
next
  case (Suc n)
  have "x \<notin> set (below n (builders st) (parts (builders st a)))"
    using Suc.prems unfolding descendants_Suc .
  then have "builders (snd (build_parts (build n) a w (effective_indent ind a st)
                              (parts (builders st a)) st)) x = builders st x"
    by (rule build_parts_frame[rotated 2]) (rule Suc.IH, assumption, rule build_shape)
  then show ?case
    by (simp only: build_Suc_snd)
qed

text \<open>
  \<open>nesting_fits n h a\<close>: the composers below \<open>a\<close> are nested less than \<open>n\<close> deep.
  Then \<open>n\<close> nested calls are enough, and rendering returns.
\<close>

primrec nesting_fits :: "nat \<Rightarrow> (addr \<Rightarrow> MessageBuilder) \<Rightarrow> addr \<Rightarrow> bool" where
  "nesting_fits 0 h a = False"
| "nesting_fits (Suc n) h a =
     (\<forall>p \<in> set (parts (h a)). case p of Value v \<Rightarrow> True | Builder c \<Rightarrow> nesting_fits n h c)"

lemma nesting_fits_shape:
  "(\<And>x. parts (h' x) = parts (h x)) \<Longrightarrow> nesting_fits n h' a = nesting_fits n h a"
proof (induction n arbitrary: a)
  case 0
  show ?case by simp
next
  case (Suc n)
  have "(case p of Value v \<Rightarrow> True | Builder c \<Rightarrow> nesting_fits n h' c)
      = (case p of Value v \<Rightarrow> True | Builder c \<Rightarrow> nesting_fits n h c)" for p
    using Suc by (cases p) simp_all
  then show ?case
    using Suc.prems by simp
qed

lemma same_shape_nesting_fits:
  "same_shape s t \<Longrightarrow> nesting_fits n (builders t) a = nesting_fits n (builders s) a"
  by (rule nesting_fits_shape) (simp add: same_shape_def)

lemma build_parts_returns:
  assumes rec: "\<And>c w ind st. nesting_fits n (builders st) c \<Longrightarrow>
                  \<exists>out st'. rec c w ind st = (Inr out, st')"
      and shape: "\<And>c w ind st. same_shape st (snd (rec c w ind st))"
  shows "(\<forall>p \<in> set ps. case p of Value v \<Rightarrow> True | Builder c \<Rightarrow> nesting_fits n (builders st) c)
         \<Longrightarrow> \<exists>segs st'. build_parts rec a w i ps st = (Inr segs, st')"
proof (induction ps arbitrary: st)
  case Nil
  show ?case by simp
next
  case (Cons p ps)
  have "\<exists>str s1. render_part rec a i p st = (Inr str, s1)"
  proof (cases p)
    case (Value v)
    then show ?thesis by (simp add: render_part_def)
  next
    case (Builder c)
    let ?m = "set_args c (args (builders st a) ++ args (builders st c)) st"
    from Cons.prems Builder have "nesting_fits n (builders st) c" by simp
    then have "nesting_fits n (builders ?m) c"
      by (simp add: same_shape_nesting_fits[of st ?m])
    from rec[OF this] Builder show ?thesis
      by (simp add: render_part_def)
  qed
  then obtain str s1 where rp: "render_part rec a i p st = (Inr str, s1)"
    by blast
  have "same_shape st s1"
    using render_part_shape[of rec st a i p, OF shape] rp by simp
  with Cons.prems have
    "\<forall>p \<in> set ps. case p of Value v \<Rightarrow> True | Builder c \<Rightarrow> nesting_fits n (builders s1) c"
    by (auto simp: same_shape_nesting_fits split: part.splits)
  from Cons.IH[OF this] obtain strs st' where
    "build_parts rec a w i ps s1 = (Inr strs, st')"
    by blast
  with rp show ?case
    unfolding build_parts_Cons_Inr by blast
qed

lemma build_returns:
  "nesting_fits n (builders st) a \<Longrightarrow> \<exists>out st'. build n a w ind st = (Inr out, st')"
proof (induction n arbitrary: a w ind st)
  case 0
  then show ?case by simp
next
  case (Suc n)
  from Suc.prems have
    "\<forall>p \<in> set (parts (builders st a)).
        case p of Value v \<Rightarrow> True | Builder c \<Rightarrow> nesting_fits n (builders st) c"
    by simp
  then have "\<exists>segs st'. build_parts (build n) a w (effective_indent ind a st)
                          (parts (builders st a)) st = (Inr segs, st')"
    by (rule build_parts_returns[rotated 2]) (rule Suc.IH, assumption, rule build_shape)
  then show ?case by auto
qed

section \<open>Rendering a composer\<close>







section \<open>Lines and indentation\<close>

lemma split_nl_nonempty [simp]: "split_nl s \<noteq> []"
  by (induction s) (auto split: list.splits)

lemma join_Cons: "ys \<noteq> [] \<Longrightarrow> join sep (x # ys) = x @ sep @ join sep ys"
  by (cases ys) simp_all

lemma join_append:
  "xs \<noteq> [] \<Longrightarrow> ys \<noteq> [] \<Longrightarrow> join sep (xs @ ys) = join sep xs @ sep @ join sep ys"
proof (induction xs)
  case Nil
  then show ?case by simp
next
  case (Cons x xs)
  then show ?case
    by (cases "xs = []") (simp_all add: join_Cons)
qed

lemma split_nl_append: "split_nl (a @ nl # b) = split_nl a @ split_nl b"
proof (induction a)
  case Nil
  show ?case by (cases "split_nl b") simp_all
next
  case (Cons c a)
  then show ?case by (cases "split_nl a") simp_all
qed

lemma join_split_nl: "join [nl] (split_nl s) = s"
proof (induction s)
  case Nil
  show ?case by simp
next
  case (Cons c s)
  obtain l ls where sp: "split_nl s = l # ls"
    by (cases "split_nl s") simp_all
  with Cons show ?case
    by (cases ls) auto
qed

lemma split_nl_no_nl: "l \<in> set (split_nl s) \<Longrightarrow> nl \<notin> set l"
proof (induction s arbitrary: l)
  case Nil
  then show ?case by simp
next
  case (Cons c s)
  obtain x xs where sp: "split_nl s = x # xs"
    by (cases "split_nl s") simp_all
  with Cons show ?case
    by (auto split: if_splits)
qed

lemma split_nl_line: "nl \<notin> set l \<Longrightarrow> split_nl l = [l]"
  by (induction l) auto

lemma split_nl_join:
  "ls \<noteq> [] \<Longrightarrow> (\<And>l. l \<in> set ls \<Longrightarrow> nl \<notin> set l) \<Longrightarrow> split_nl (join [nl] ls) = ls"
proof (induction ls)
  case Nil
  then show ?case by simp
next
  case (Cons x xs)
  show ?case
  proof (cases "xs = []")
    case True
    with Cons.prems show ?thesis by (simp add: split_nl_line)
  next
    case False
    with Cons have "split_nl (join [nl] xs) = xs" by simp
    with False Cons.prems show ?thesis
      by (simp add: join_Cons split_nl_append split_nl_line)
  qed
qed

lemma indent_lines_append:
  "indent_lines ind (a @ nl # b) = indent_lines ind a @ nl # indent_lines ind b"
  by (simp add: indent_lines_def split_nl_append join_append)

lemma indent_lines_join:
  "ss \<noteq> [] \<Longrightarrow> join [nl] (map (indent_lines ind) ss) = indent_lines ind (join [nl] ss)"
proof (induction ss)
  case Nil
  then show ?case by simp
next
  case (Cons x xs)
  then show ?case
    by (cases "xs = []") (simp_all add: join_Cons indent_lines_append)
qed

lemma split_nl_indent_lines:
  "nl \<notin> set ind \<Longrightarrow> split_nl (indent_lines ind s) = map (\<lambda>line. ind @ line) (split_nl s)"
  unfolding indent_lines_def
  by (rule split_nl_join) (auto dest: split_nl_no_nl)

lemma indent_lines_twice:
  "nl \<notin> set b \<Longrightarrow> indent_lines a (indent_lines b s) = indent_lines (a @ b) s"
proof -
  assume b: "nl \<notin> set b"
  have "indent_lines a (indent_lines b s)
      = join [nl] (map (\<lambda>line. a @ line) (split_nl (indent_lines b s)))"
    by (rule indent_lines_def)
  also have "\<dots> = join [nl] (map (\<lambda>line. a @ line) (map (\<lambda>line. b @ line) (split_nl s)))"
    using b by (simp add: split_nl_indent_lines)
  also have "\<dots> = indent_lines (a @ b) s"
    by (simp add: indent_lines_def o_def)
  finally show ?thesis .
qed

lemma indent_lines_funpow:
  "nl \<notin> set ind \<Longrightarrow> (indent_lines ind ^^ d) s = indent_lines (concat (replicate d ind)) s"
proof (induction d)
  case 0
  show ?case by (simp add: indent_lines_def join_split_nl)
next
  case (Suc d)
  then have "nl \<notin> set (concat (replicate d ind))" by auto
  with Suc show ?case
    by (simp add: indent_lines_twice)
qed

section \<open>Nesting\<close>

lemma build_parts_flag:
  "build_parts rec a True indt ps st =
     (case build_parts rec a False indt ps st of
        (Inl e, s) \<Rightarrow> (Inl e, s)
      | (Inr segs, s) \<Rightarrow> (Inr (map (indent_lines indt) segs), s))"
proof (induction ps arbitrary: st)
  case Nil
  show ?case by simp
next
  case (Cons p ps)
  show ?case
    by (simp add: Cons.IH split: prod.splits sum.splits)
qed

lemma build_parts_length:
  "build_parts rec a w indt ps st = (Inr segs, st') \<Longrightarrow> length segs = length ps"
proof (induction ps arbitrary: st segs)
  case Nil
  then show ?case by simp
next
  case (Cons p ps)
  then show ?case
    by (auto split: prod.splits sum.splits)
qed

lemma build_parts_append:
  "build_parts rec a w indt (ps @ qs) st =
     (case build_parts rec a w indt ps st of
        (Inl e, s) \<Rightarrow> (Inl e, s)
      | (Inr xs, s1) \<Rightarrow>
          (case build_parts rec a w indt qs s1 of
             (Inl e, s) \<Rightarrow> (Inl e, s)
           | (Inr ys, s2) \<Rightarrow> (Inr (xs @ ys), s2)))"
proof (induction ps arbitrary: st)
  case Nil
  show ?case by (simp split: prod.splits sum.splits)
next
  case (Cons p ps)
  show ?case
    using Cons.IH by (cases w) (simp_all split: prod.splits sum.splits)
qed

lemma build_nested:
  assumes "build n a False ind st = (Inr txt, st')"
  shows "build n a True ind st =
           (Inr (if parts (builders st a) = [] then []
                 else indent_lines (effective_indent ind a st) txt), st')"
proof (cases n)
  case 0
  with assms show ?thesis by simp
next
  case (Suc m)
  let ?i = "effective_indent ind a st"
  from assms Suc obtain segs where
    segs: "build_parts (build m) a False ?i (parts (builders st a)) st = (Inr segs, st')"
    and tj: "txt = join [nl] segs"
    by (auto split: prod.splits sum.splits)
  have len: "length segs = length (parts (builders st a))"
    using segs by (rule build_parts_length)
  have "build n a True ind st = (Inr (join [nl] (map (indent_lines ?i) segs)), st')"
    using Suc segs by (simp add: build_parts_flag)
  moreover have "join [nl] (map (indent_lines ?i) segs)
      = (if parts (builders st a) = [] then [] else indent_lines ?i txt)"
    using len tj by (cases "segs = []") (auto simp: indent_lines_join)
  ultimately show ?thesis by simp
qed

lemma build_first_level_value:
  assumes b: "build (Suc n) a False ind st = (Inr txt, st')"
      and ps: "parts (builders st a) = pre @ Value v # post"
  shows "\<exists>spre st1 spost.
           build_parts (build n) a False (effective_indent ind a st) pre st = (Inr spre, st1)
         \<and> build_parts (build n) a False (effective_indent ind a st) post st1 = (Inr spost, st')
         \<and> txt = join [nl]
                   (spre @ [fst (buildTemplate (js_toString (stringifyValue v))
                                   (args (builders st1 a)))] @ spost)"
  using b ps
  by (auto simp: build_parts_append render_part_def split: prod.splits sum.splits)

lemma build_first_level_child:
  assumes b: "build (Suc n) a False ind st = (Inr txt, st')"
      and ps: "parts (builders st a) = pre @ Builder c # post"
  shows "\<exists>spre st1 seg st2 spost.
           build_parts (build n) a False (effective_indent ind a st) pre st = (Inr spre, st1)
         \<and> build n c True (Some (effective_indent ind a st))
              (set_args c (args (builders st1 a) ++ args (builders st1 c)) st1) = (Inr seg, st2)
         \<and> build_parts (build n) a False (effective_indent ind a st) post st2 = (Inr spost, st')
         \<and> txt = join [nl] (spre @ [seg] @ spost)"
  using b ps
  by (auto simp: build_parts_append render_part_def split: prod.splits sum.splits)

text \<open>
  The test ``should handle deeply nested MessageBuilders'', with the static indentation
  set to \<open>i\<close>: four composers (references 0 to 3), each the only part of the one
  before, the innermost holding \<^verbatim>\<open>Deep Message\<close>.
\<close>

definition deeply_nested :: "string \<Rightarrow> state" where
  "deeply_nested i =
     snd (add 0 (Instance 1)
       (snd (add 1 (Instance 2)
         (snd (add 2 (Instance 3)
           (snd (add 3 (Scalar (Str ''Deep Message''))
             (snd (new_MessageBuilder None Map.empty
               (snd (new_MessageBuilder None Map.empty
                 (snd (new_MessageBuilder None Map.empty
                   (snd (new_MessageBuilder None Map.empty
                     (setGlobalIndent i init_state))))))))))))))))"

text \<open>
  C7, as stated, fails when the indentation string contains a newline: every level
  splits what it got into lines again, so with the indentation \<^verbatim>\<open>"\n"\<close> the text
  at depth 3 is preceded by seven newlines, not by the indentation three times.
\<close>

theorem newline_indentation_not_repeated:
  "effective_indent None 0 (deeply_nested [nl]) = [nl]
   \<and> fst (build 4 0 False None (deeply_nested [nl]))
       = Inr (replicate 7 nl @ ''Deep Message'')
   \<and> fst (build 4 0 False None (deeply_nested [nl]))
       \<noteq> Inr (concat (replicate 3 (effective_indent None 0 (deeply_nested [nl])))
                @ ''Deep Message'')"
  by code_simp

text \<open>
  C7, amended.  With enough stack for its nesting, a composer renders, without
  indentation of its own level, to some \<open>txt\<close>.  Rendered as a nested part
  (\<^verbatim>\<open>withIntent\<close> true) it gives \<open>txt\<close> with every line prefixed by the effective
  indentation string, and the empty text when it has no parts.  When the indentation
  contains no newline, \<open>d\<close> levels prefix every line with the indentation repeated \<open>d\<close>
  times.  At the top level a scalar part is in the output as its substituted text, with
  no prefix, and a composer part as its nested rendering.
\<close>

theorem nested_lines_are_prefixed:
  assumes "nesting_fits (Suc n) (builders st) a"
  shows "\<exists>txt st'.
      build (Suc n) a False ind st = (Inr txt, st')
    \<and> build (Suc n) a True ind st =
          (Inr (if parts (builders st a) = [] then []
                else indent_lines (effective_indent ind a st) txt), st')
    \<and> (nl \<notin> set (effective_indent ind a st) \<longrightarrow>
          (indent_lines (effective_indent ind a st) ^^ d) txt
            = indent_lines (concat (replicate d (effective_indent ind a st))) txt)
    \<and> (\<forall>pre v post. parts (builders st a) = pre @ Value v # post \<longrightarrow>
          (\<exists>spre st1 spost.
             build_parts (build n) a False (effective_indent ind a st) pre st = (Inr spre, st1)
           \<and> build_parts (build n) a False (effective_indent ind a st) post st1
               = (Inr spost, st')
           \<and> txt = join [nl]
                 (spre @ [fst (buildTemplate (js_toString (stringifyValue v))
                                 (args (builders st1 a)))] @ spost)))
    \<and> (\<forall>pre c post. parts (builders st a) = pre @ Builder c # post \<longrightarrow>
          (\<exists>spre st1 seg st2 spost.
             build_parts (build n) a False (effective_indent ind a st) pre st = (Inr spre, st1)
           \<and> build n c True (Some (effective_indent ind a st))
                (set_args c (args (builders st1 a) ++ args (builders st1 c)) st1)
               = (Inr seg, st2)
           \<and> build_parts (build n) a False (effective_indent ind a st) post st2
               = (Inr spost, st')
           \<and> txt = join [nl] (spre @ [seg] @ spost)))"
proof -
  from build_returns[OF assms] obtain out st' where
    b: "build (Suc n) a False ind st = (Inr out, st')"
    by blast
  show ?thesis
    using b build_nested[OF b]
      indent_lines_funpow[of "effective_indent ind a st" d out]
      build_first_level_value[OF b] build_first_level_child[OF b]
    by blast
qed

theorem nested_lines_are_prefixed_witness:
  "nesting_fits 4 (builders (deeply_nested ''----'')) 0
   \<and> fst (build 4 0 False None (deeply_nested ''----'')) = Inr ''------------Deep Message''
   \<and> fst (build 4 0 True None (deeply_nested ''----''))
       = Inr ''----------------Deep Message''
   \<and> (indent_lines ''----'' ^^ 3) ''Deep Message'' = ''------------Deep Message''"
proof -
  let ?S = "deeply_nested ''----''"
  have f: "nesting_fits (Suc 3) (builders ?S) 0"
    by code_simp
  have v: "fst (build (Suc 3) 0 False None ?S) = Inr ''------------Deep Message''"
    by code_simp
  have i: "effective_indent None 0 ?S = ''----''"
    by code_simp
  have p: "parts (builders ?S 0) = [Builder 1]"
    by code_simp
  from nested_lines_are_prefixed[OF f, of None 0] obtain out st' where
    b: "build (Suc 3) 0 False None ?S = (Inr out, st')" and
    t: "build (Suc 3) 0 True None ?S =
          (Inr (if parts (builders ?S 0) = [] then []
                else indent_lines (effective_indent None 0 ?S) out), st')"
    by blast
  from b v have "out = ''------------Deep Message''"
    by simp
  with t i p have "fst (build (Suc 3) 0 True None ?S)
      = Inr (indent_lines ''----'' ''------------Deep Message'')"
    by simp
  moreover have "indent_lines ''----'' ''------------Deep Message''
      = ''----------------Deep Message''"
    by code_simp
  moreover have "(indent_lines ''----'' ^^ 3) ''Deep Message'' = ''------------Deep Message''"
    by code_simp
  moreover have "Suc 3 = 4"
    by simp
  ultimately show ?thesis
    using f v by simp
qed

section \<open>Rendering twice\<close>

text \<open>Rendering a composer reads only that composer and the composers below it.\<close>

definition agree_on :: "addr set \<Rightarrow> state \<Rightarrow> state \<Rightarrow> bool" where
  "agree_on F s t \<longleftrightarrow>
     global_indent s = global_indent t \<and> (\<forall>x\<in>F. builders s x = builders t x)"

lemma agree_on_subset: "agree_on F s t \<Longrightarrow> G \<subseteq> F \<Longrightarrow> agree_on G s t"
  by (auto simp: agree_on_def)

lemma agree_on_sym: "agree_on F s t \<Longrightarrow> agree_on F t s"
  by (simp add: agree_on_def)

lemma agree_on_trans: "agree_on F s t \<Longrightarrow> agree_on F t u \<Longrightarrow> agree_on F s u"
  by (simp add: agree_on_def)

lemma below_member:
  "Builder c \<in> set ps \<Longrightarrow>
     c \<in> set (below n h ps) \<and> set (descendants n h c) \<subseteq> set (below n h ps)"
proof (induction ps)
  case Nil
  then show ?case by simp
next
  case (Cons p ps)
  then show ?case by (cases p) auto
qed

lemma below_cong:
  "(\<And>c. Builder c \<in> set ps \<Longrightarrow> descendants n h' c = descendants n h c) \<Longrightarrow>
     below n h' ps = below n h ps"
proof (induction ps)
  case Nil
  show ?case by simp
next
  case (Cons p ps)
  then show ?case by (cases p) simp_all
qed

lemma descendants_agree:
  "(\<And>x. x \<in> insert a (set (descendants n h a)) \<Longrightarrow> parts (h' x) = parts (h x)) \<Longrightarrow>
     descendants n h' a = descendants n h a"
proof (induction n arbitrary: a)
  case 0
  show ?case by simp
next
  case (Suc n)
  have pa: "parts (h' a) = parts (h a)"
    using Suc.prems by simp
  have "descendants n h' c = descendants n h c" if c: "Builder c \<in> set (parts (h a))" for c
  proof (rule Suc.IH)
    fix x assume "x \<in> insert c (set (descendants n h c))"
    with below_member[OF c, of n h] have "x \<in> set (descendants (Suc n) h a)"
      unfolding descendants_Suc by auto
    then show "parts (h' x) = parts (h x)"
      using Suc.prems by simp
  qed
  then have "below n h' (parts (h a)) = below n h (parts (h a))"
    by (rule below_cong)
  with pa show ?case
    unfolding descendants_Suc by simp
qed

lemma agree_on_set_args:
  assumes ag: "agree_on F s t" and a: "a \<in> F" and c: "c \<in> F"
  shows "agree_on F (set_args c (args (builders s a) ++ args (builders s c)) s)
                    (set_args c (args (builders t a) ++ args (builders t c)) t)"
  using assms by (auto simp: agree_on_def set_args_def)

lemma render_part_local:
  assumes rec: "\<And>c w ind s t. insert c (set (descendants n (builders s) c)) \<subseteq> F \<Longrightarrow>
                  agree_on F s t \<Longrightarrow>
                  fst (rec c w ind t) = fst (rec c w ind s)
                  \<and> agree_on F (snd (rec c w ind s)) (snd (rec c w ind t))"
      and F: "insert a (set (below n (builders s) [p])) \<subseteq> F"
      and ag: "agree_on F s t"
  shows "fst (render_part rec a indt p t) = fst (render_part rec a indt p s)
       \<and> agree_on F (snd (render_part rec a indt p s)) (snd (render_part rec a indt p t))"
proof (cases p)
  case (Value v)
  with F ag show ?thesis
    by (simp add: render_part_def agree_on_def)
next
  case (Builder c)
  let ?s1 = "set_args c (args (builders s a) ++ args (builders s c)) s"
  let ?t1 = "set_args c (args (builders t a) ++ args (builders t c)) t"
  from F Builder have a: "a \<in> F" and c: "c \<in> F"
    and d: "set (descendants n (builders s) c) \<subseteq> F"
    by simp_all
  have ag1: "agree_on F ?s1 ?t1"
    using ag a c by (rule agree_on_set_args)
  have "descendants n (builders ?s1) c = descendants n (builders s) c"
    by (rule same_shape_descendants[symmetric]) simp
  with c d have "insert c (set (descendants n (builders ?s1) c)) \<subseteq> F"
    by simp
  from rec[OF this ag1] Builder show ?thesis
    by (simp add: render_part_def)
qed

lemma build_parts_local:
  assumes rec: "\<And>c w ind s t. insert c (set (descendants n (builders s) c)) \<subseteq> F \<Longrightarrow>
                  agree_on F s t \<Longrightarrow>
                  fst (rec c w ind t) = fst (rec c w ind s)
                  \<and> agree_on F (snd (rec c w ind s)) (snd (rec c w ind t))"
      and shape: "\<And>c w ind st. same_shape st (snd (rec c w ind st))"
  shows "insert a (set (below n (builders s) ps)) \<subseteq> F \<Longrightarrow> agree_on F s t \<Longrightarrow>
           fst (build_parts rec a w indt ps t) = fst (build_parts rec a w indt ps s)
         \<and> agree_on F (snd (build_parts rec a w indt ps s)) (snd (build_parts rec a w indt ps t))"
proof (induction ps arbitrary: s t)
  case Nil
  then show ?case by simp
next
  case (Cons p ps)
  from Cons.prems(1) have Fp: "insert a (set (below n (builders s) [p])) \<subseteq> F"
    and Fps: "insert a (set (below n (builders s) ps)) \<subseteq> F"
    by (cases p; simp)+
  have loc: "fst (render_part rec a indt p t) = fst (render_part rec a indt p s)
       \<and> agree_on F (snd (render_part rec a indt p s)) (snd (render_part rec a indt p t))"
    using rec Fp Cons.prems(2) by (rule render_part_local)
  have sh: "same_shape s (snd (render_part rec a indt p s))"
    by (rule render_part_shape) (rule shape)
  obtain rs s1 where ps: "render_part rec a indt p s = (rs, s1)"
    by (cases "render_part rec a indt p s")
  obtain rt t1 where pt: "render_part rec a indt p t = (rt, t1)"
    by (cases "render_part rec a indt p t")
  from loc ps pt have rr: "rt = rs" and ag1: "agree_on F s1 t1"
    by simp_all
  show ?case
  proof (cases rs)
    case (Inl e)
    with ps pt rr ag1 show ?thesis
      by (simp only: build_parts_Cons_snd build_parts_Cons_fst) simp
  next
    case (Inr str)
    from sh ps have "below n (builders s1) ps = below n (builders s) ps"
      by (simp add: same_shape_below)
    with Fps have "insert a (set (below n (builders s1) ps)) \<subseteq> F"
      by simp
    from Cons.IH[OF this ag1] ps pt rr Inr show ?thesis
      by (simp only: build_parts_Cons_snd build_parts_Cons_fst) simp
  qed
qed

lemma build_local:
  "insert a (set (descendants n (builders s) a)) \<subseteq> F \<Longrightarrow> agree_on F s t \<Longrightarrow>
     fst (build n a w ind t) = fst (build n a w ind s)
   \<and> agree_on F (snd (build n a w ind s)) (snd (build n a w ind t))"
proof (induction n arbitrary: a w ind s t)
  case 0
  then show ?case by simp
next
  case (Suc n)
  from Suc.prems have a: "a \<in> F" by simp
  with Suc.prems(2) have ba: "builders t a = builders s a"
    and gi: "global_indent t = global_indent s"
    by (simp_all add: agree_on_def)
  then have ei: "effective_indent ind a t = effective_indent ind a s"
    by (simp add: effective_indent_def split: option.splits)
  have F: "insert a (set (below n (builders s) (parts (builders s a)))) \<subseteq> F"
    using Suc.prems(1) unfolding descendants_Suc .
  have "fst (build_parts (build n) a w indt ps t) = fst (build_parts (build n) a w indt ps s)
      \<and> agree_on F (snd (build_parts (build n) a w indt ps s))
                    (snd (build_parts (build n) a w indt ps t))"
    if "insert a (set (below n (builders s) ps)) \<subseteq> F" for indt ps
    using that Suc.prems(2)
    by (rule build_parts_local[rotated 2]) (rule Suc.IH, assumption+, rule build_shape)
  from this[OF F] ba ei show ?case
    by (simp only: build_Suc_snd build_Suc_fst)
qed

lemma build_stable:
  assumes fx: "build n c w ind s1 = (Inr out, s1)"
      and ag: "agree_on (insert c (set (descendants n (builders s1) c))) s1 t"
  shows "build n c w ind t = (Inr out, t)"
proof -
  let ?F = "insert c (set (descendants n (builders s1) c))"
  let ?t' = "snd (build n c w ind t)"
  have loc: "fst (build n c w ind t) = fst (build n c w ind s1)
      \<and> agree_on ?F (snd (build n c w ind s1)) ?t'"
    using ag by (intro build_local) simp_all
  with fx have r: "fst (build n c w ind t) = Inr out" and ag': "agree_on ?F s1 ?t'"
    by simp_all
  have d: "descendants n (builders t) c = descendants n (builders s1) c"
    using ag by (intro descendants_agree) (auto simp: agree_on_def)
  have "builders ?t' x = builders t x" for x
  proof (cases "x \<in> ?F")
    case True
    with ag ag' show ?thesis by (auto simp: agree_on_def)
  next
    case False
    with d have "x \<notin> set (descendants n (builders t) c)" by simp
    then show ?thesis by (rule build_frame)
  qed
  then have "builders t = builders ?t'" by auto
  with build_shape[of t n c w ind] have "t = ?t'"
    by (rule same_shape_eq)
  with r show ?thesis
    by (simp add: prod_eq_iff)
qed

lemma set_args_same: "set_args c (args (builders t c)) t = t"
  by (simp add: set_args_def)

lemma map_add_self: "A ++ A = A"
  by (rule ext) (simp add: map_add_def split: option.splits)

definition tree_shaped :: "nat \<Rightarrow> addr \<Rightarrow> state \<Rightarrow> bool" where
  "tree_shaped n a st \<longleftrightarrow> distinct (a # descendants n (builders st) a)"

text \<open>
  When no composer is reached twice, a second rendering finds every child's mapping
  already merged, merges it again to the same mapping, and changes nothing.
\<close>

lemma build_parts_idem:
  assumes IH: "\<And>c w ind st out st'. build n c w ind st = (Inr out, st') \<Longrightarrow>
                 distinct (c # descendants n (builders st) c) \<Longrightarrow>
                 build n c w ind st' = (Inr out, st')"
  shows "build_parts (build n) a w i ps st = (Inr segs, st') \<Longrightarrow>
         distinct (a # below n (builders st) ps) \<Longrightarrow>
         agree_on (insert a (set (below n (builders st) ps))) st' t \<Longrightarrow>
         build_parts (build n) a w i ps t = (Inr segs, t)"
proof (induction ps arbitrary: st segs)
  case Nil
  then show ?case by simp
next
  case (Cons p ps)
  from Cons.prems(1) obtain str s1 strs where
    rp: "render_part (build n) a i p st = (Inr str, s1)" and
    bp: "build_parts (build n) a w i ps s1 = (Inr strs, st')" and
    segs: "segs = (if w then indent_lines i str else str) # strs"
    unfolding build_parts_Cons_Inr by blast
  have sh1: "same_shape st s1"
    using render_part_shape[of "build n" st a i p, OF build_shape] rp by simp
  have bel: "below n (builders s1) ps = below n (builders st) ps"
    using sh1 by (simp add: same_shape_below)
  have a_notin: "a \<notin> set (below n (builders st) (p # ps))"
    using Cons.prems(2) by simp
  have "builders (snd (build_parts (build n) a w i (p # ps) st)) a = builders st a"
    using a_notin by (rule build_parts_frame[rotated 2]) (rule build_frame, assumption, rule build_shape)
  with Cons.prems(1) have a_same: "builders st' a = builders st a"
    by simp
  from Cons.prems(3) have ta: "builders t a = builders st' a"
    by (simp add: agree_on_def)
  have d_ps: "distinct (a # below n (builders s1) ps)"
    using Cons.prems(2) bel by (cases p) simp_all
  have "insert a (set (below n (builders s1) ps))
      \<subseteq> insert a (set (below n (builders st) (p # ps)))"
    using bel by (cases p) auto
  with Cons.prems(3) have ag_ps: "agree_on (insert a (set (below n (builders s1) ps))) st' t"
    by (rule agree_on_subset)
  have tail: "build_parts (build n) a w i ps t = (Inr strs, t)"
    using bp d_ps ag_ps by (rule Cons.IH)
  have "render_part (build n) a i p t = (Inr str, t)"
  proof (cases p)
    case (Value v)
    with rp ta a_same show ?thesis
      by (auto simp: render_part_def)
  next
    case (Builder c)
    let ?A = "args (builders st a)"
    let ?m = "set_args c (?A ++ args (builders st c)) st"
    from rp Builder have b1: "build n c True (Some i) ?m = (Inr str, s1)"
      by (simp add: render_part_def)
    have dm: "descendants n (builders ?m) c = descendants n (builders st) c"
      by (rule same_shape_descendants[symmetric]) simp
    from Cons.prems(2) Builder have
      ac: "a \<noteq> c" and dc: "distinct (c # descendants n (builders st) c)"
      and c_ps: "c \<notin> set (below n (builders st) ps)"
      and d_ps': "set (descendants n (builders st) c) \<inter> set (below n (builders st) ps) = {}"
      by auto
    have "distinct (c # descendants n (builders ?m) c)"
      using dc dm by simp
    with b1 have fx: "build n c True (Some i) s1 = (Inr str, s1)"
      by (rule IH)
    have "c \<notin> set (descendants n (builders ?m) c)"
      using dc dm by simp
    then have "builders (snd (build n c True (Some i) ?m)) c = builders ?m c"
      by (rule build_frame)
    with b1 have c1: "builders s1 c = (builders st c)\<lparr>args := ?A ++ args (builders st c)\<rparr>"
      by simp
    have ds1: "descendants n (builders s1) c = descendants n (builders st) c"
      using sh1 by (rule same_shape_descendants[symmetric])
    have keep: "builders st' x = builders s1 x"
      if "x \<in> insert c (set (descendants n (builders st) c))" for x
    proof -
      from that c_ps d_ps' bel have "x \<notin> set (below n (builders s1) ps)"
        by auto
      then have "builders (snd (build_parts (build n) a w i ps s1)) x = builders s1 x"
        by (rule build_parts_frame[rotated 2]) (rule build_frame, assumption, rule build_shape)
      with bp show ?thesis by simp
    qed
    have gi: "global_indent s1 = global_indent st'"
      using build_parts_shape[of "build n" s1 a w i ps, OF build_shape] bp
      by (simp add: same_shape_def)
    have "agree_on (insert c (set (descendants n (builders s1) c))) s1 st'"
      using keep gi ds1 by (auto simp: agree_on_def)
    moreover have "insert c (set (descendants n (builders s1) c))
        \<subseteq> insert a (set (below n (builders st) (p # ps)))"
      using Builder ds1 by auto
    with Cons.prems(3) have "agree_on (insert c (set (descendants n (builders s1) c))) st' t"
      by (rule agree_on_subset)
    ultimately have "agree_on (insert c (set (descendants n (builders s1) c))) s1 t"
      by (rule agree_on_trans)
    with fx have st: "build n c True (Some i) t = (Inr str, t)"
      by (rule build_stable)
    have "builders t c = builders st' c"
      using Cons.prems(3) Builder by (simp add: agree_on_def)
    with keep[of c] c1 have "args (builders t c) = ?A ++ args (builders st c)"
      by simp
    moreover have "args (builders t a) = ?A"
      using ta a_same by simp
    ultimately have "set_args c (args (builders t a) ++ args (builders t c)) t = t"
      using set_args_same[of c t] by (simp add: map_add_self)
    with st Builder show ?thesis
      by (simp add: render_part_def)
  qed
  with tail segs show ?case
    unfolding build_parts_Cons_Inr by blast
qed

lemma build_again:
  "build n a w ind st = (Inr out, st') \<Longrightarrow>
   distinct (a # descendants n (builders st) a) \<Longrightarrow>
   build n a w ind st' = (Inr out, st')"
proof (induction n arbitrary: a w ind st out st')
  case 0
  then show ?case by simp
next
  case (Suc n)
  let ?i = "effective_indent ind a st"
  let ?ps = "parts (builders st a)"
  from Suc.prems(1) obtain segs where
    bp: "build_parts (build n) a w ?i ?ps st = (Inr segs, st')" and out: "out = join [nl] segs"
    by (auto split: prod.splits sum.splits)
  have d: "distinct (a # below n (builders st) ?ps)"
    using Suc.prems(2) unfolding descendants_Suc .
  have "agree_on (insert a (set (below n (builders st) ?ps))) st' st'"
    by (simp add: agree_on_def)
  with bp d have again: "build_parts (build n) a w ?i ?ps st' = (Inr segs, st')"
    by (rule build_parts_idem[rotated 1]) (rule Suc.IH)
  have sh: "same_shape st st'"
    using build_shape[of st "Suc n" a w ind] Suc.prems(1) by simp
  then have "effective_indent ind a st' = ?i" "parts (builders st' a) = ?ps"
    by (simp_all add: same_shape_def effective_indent_def split: option.splits)
  with again out show ?case by simp
qed

text \<open>
  Two examples.  In \<open>shared_child\<close> the composer \<^verbatim>\<open>c = msg("{{y}}")\<close> (reference
  1) is a part of the root \<^verbatim>\<open>r\<close> (reference 0) and of \<^verbatim>\<open>b = msg(c, {y: 2})\<close>
  (reference 2), which is the second part of \<^verbatim>\<open>r\<close>.  \<open>inherited_args\<close> is the
  test ``should handle inherited args in nested builders'':
  \<^verbatim>\<open>msg("Name: {{name}}", {name: "John", age: 25})\<close> with the part
  \<^verbatim>\<open>msg("Age: {{age}}")\<close>.
\<close>

definition shared_child :: state where
  "shared_child =
     snd (add 0 (Instance 2)
       (snd (add 0 (Instance 1)
       (snd (add 2 (Instance 1)
       (snd (add 1 (Scalar (Str ''{{y}}''))
       (snd (new_MessageBuilder None (Map.empty(''y'' \<mapsto> Num (whole 2)))
       (snd (new_MessageBuilder None Map.empty
       (snd (new_MessageBuilder None Map.empty
       (init_state))))))))))))))"

definition inherited_args :: state where
  "inherited_args =
     snd (add 0 (Instance 1)
       (snd (add 1 (Scalar (Str ''Age: {{age}}''))
       (snd (new_MessageBuilder None Map.empty
       (snd (add 0 (Scalar (Str ''Name: {{name}}''))
       (snd (new_MessageBuilder None (Map.empty(''name'' \<mapsto> Str ''John'', ''age'' \<mapsto> Num (whole 25)))
       (init_state))))))))))"

text \<open>
  C8, as stated, fails for a composer that is reached twice: the first
  \<^verbatim>\<open>r.build()\<close> renders \<^verbatim>\<open>c\<close> under \<^verbatim>\<open>r\<close> with no \<^verbatim>\<open>y\<close>, and
  then merges \<^verbatim>\<open>y\<close> into the mapping of \<^verbatim>\<open>c\<close> while rendering \<^verbatim>\<open>b\<close>;
  the second \<^verbatim>\<open>r.build()\<close> finds it there.
\<close>

theorem second_build_differs_with_shared_child:
  "fst (build 3 0 False None shared_child)
     = Inr (''   {{y}}'' @ [nl] @ ''      2'')
   \<and> fst (build 3 0 False None (snd (build 3 0 False None shared_child)))
     = Inr (''   2'' @ [nl] @ ''      2'')
   \<and> parts (builders shared_child 0) = [Builder 1, Builder 2]
   \<and> parts (builders shared_child 2) = [Builder 1]"
  by code_simp

text \<open>
  C8, amended.  For a composer below which no composer is reached twice (and which is
  not below itself), and with enough stack for its nesting: \<^verbatim>\<open>build\<close> returns,
  and calling it again with the same arguments, with nothing modified in between,
  returns the same text and leaves every object as the first call left it.
\<close>

theorem build_twice_same_output:
  assumes "nesting_fits n (builders st) a" and "tree_shaped n a st"
  shows "\<exists>out st'. build n a w ind st = (Inr out, st') \<and> build n a w ind st' = (Inr out, st')"
proof -
  from build_returns[OF assms(1)] obtain out st' where
    b: "build n a w ind st = (Inr out, st')"
    by blast
  from assms(2) have "distinct (a # descendants n (builders st) a)"
    by (simp add: tree_shaped_def)
  with b have "build n a w ind st' = (Inr out, st')"
    by (rule build_again)
  with b show ?thesis by blast
qed

theorem build_twice_same_output_witness:
  "nesting_fits 2 (builders inherited_args) 0
   \<and> tree_shaped 2 0 inherited_args
   \<and> fst (build 2 0 False None inherited_args)
       = Inr (''Name: John'' @ [nl] @ ''   Age: 25'')
   \<and> fst (build 2 0 False None (snd (build 2 0 False None inherited_args)))
       = Inr (''Name: John'' @ [nl] @ ''   Age: 25'')
   \<and> args (builders inherited_args 1) ''age'' = None
   \<and> args (builders (snd (build 2 0 False None inherited_args)) 1) ''age'' = Some (Num (whole 25))"
proof -
  let ?X = "''Name: John'' @ [nl] @ ''   Age: 25''"
  have f: "nesting_fits 2 (builders inherited_args) 0"
    by code_simp
  have t: "tree_shaped 2 0 inherited_args"
    by code_simp
  have v: "fst (build 2 0 False None inherited_args) = Inr ?X"
    by code_simp
  have a: "args (builders inherited_args 1) ''age'' = None
     \<and> args (builders (snd (build 2 0 False None inherited_args)) 1) ''age'' = Some (Num (whole 25))"
    by code_simp
  from build_twice_same_output[OF f t, of False None] obtain out st' where
    b: "build 2 0 False None inherited_args = (Inr out, st')" and
    c: "build 2 0 False None st' = (Inr out, st')"
    by blast
  from b v have "out = ?X" by simp
  with b c have "fst (build 2 0 False None (snd (build 2 0 False None inherited_args))) = Inr ?X"
    by simp
  with f t v a show ?thesis by simp
qed

section \<open>Outputs of the PromptBuilder\<close>

text \<open>
  What the partition loop collects, as functions of the resolved turns: the context
  stream takes the text of a system turn and the truthy placeholder of any other
  turn; the thread takes the other turns.
\<close>

definition context_parts :: "resolved list \<Rightarrow> string list" where
  "context_parts rs =
     concat (map (\<lambda>(r, c, p). if r = Str ''system'' then [c] else if truthy p then [js_toString (the p)] else []) rs)"

definition thread_messages :: "resolved list \<Rightarrow> (jsval \<times> string) list" where
  "thread_messages rs = map (\<lambda>(r, c, p). (r, c)) (filter (\<lambda>(r, c, p). r \<noteq> Str ''system'') rs)"

lemma assistant_loop_eq:
  "assistant_loop rs cp ms = (cp @ context_parts rs, ms @ thread_messages rs)"
  by (induction rs cp ms rule: assistant_loop.induct)
     (simp_all add: context_parts_def thread_messages_def)

lemma resolve_role:
  "resolve n this m st = (Inr r, st') \<Longrightarrow> fst r = role m \<and> snd (snd r) = placeholder m"
  by (auto simp: resolve_def split: content.splits prod.splits sum.splits)

lemma resolve_all_roles:
  "resolve_all n this ms st = (Inr rs, st') \<Longrightarrow>
     map fst rs = map role ms \<and> map (\<lambda>r. snd (snd r)) rs = map placeholder ms"
proof (induction ms arbitrary: st rs)
  case Nil
  then show ?case by simp
next
  case (Cons m ms)
  from Cons.prems obtain r st1 rs' where
    r: "resolve n this m st = (Inr r, st1)" and
    rs: "resolve_all n this ms st1 = (Inr rs', st')" and eq: "rs = r # rs'"
    by (auto split: prod.splits sum.splits)
  from Cons.IH[OF rs] resolve_role[OF r] eq show ?case by simp
qed

lemma context_parts_empty:
  "context_parts rs = [] \<longleftrightarrow> (\<forall>r \<in> set rs. fst r \<noteq> Str ''system'' \<and> \<not> truthy (snd (snd r)))"
  by (induction rs) (auto simp: context_parts_def split: if_splits)

lemma roles_placeholders_set:
  assumes "map fst rs = map role ms" "map (\<lambda>r. snd (snd r)) rs = map placeholder ms"
  shows "(\<forall>r \<in> set rs. fst r \<noteq> Str ''system'' \<and> \<not> truthy (snd (snd r)))
      \<longleftrightarrow> (\<forall>m \<in> set ms. role m \<noteq> Str ''system'' \<and> \<not> truthy (placeholder m))"
  using assms
proof (induction rs arbitrary: ms)
  case Nil then show ?case by simp
next
  case (Cons r rs)
  then obtain m ms' where "ms = m # ms'" by (cases ms) auto
  with Cons show ?case by auto
qed

lemma PromptBuilder_build_roles:
  assumes "PromptBuilder_build n this flt st = (Inr out, st')"
  shows "map fst out = map role (filter (the_filter flt) (prompt_messages (prompts st this)))"
proof -
  from assms obtain rs where
    rs: "resolve_all n this (filter (the_filter flt) (prompt_messages (prompts st this))) st
           = (Inr rs, st')" and out: "out = map (\<lambda>(r, c, p). (r, c)) rs"
    by (auto simp: PromptBuilder_build_def split: prod.splits sum.splits)
  have "map fst out = map fst rs"
    using out by (simp add: case_prod_unfold)
  with resolve_all_roles[OF rs] show ?thesis by simp
qed

text \<open>
  A kept turn can be resolved when its content is text, or a composer whose nesting
  fits the stack; then resolving returns.
\<close>

definition renderable :: "nat \<Rightarrow> state \<Rightarrow> message \<Rightarrow> bool" where
  "renderable n st m =
     (case content m of Plain v \<Rightarrow> True | Composer c \<Rightarrow> nesting_fits n (builders st) c)"

lemma resolve_shape: "same_shape st (snd (resolve n this m st))"
proof (cases "content m")
  case (Plain v)
  then show ?thesis by (simp add: resolve_def)
next
  case (Composer c)
  let ?m = "set_args c (prompt_args (prompts st this) ++ args (builders st c)) st"
  have "same_shape st ?m" by simp
  moreover have "same_shape ?m (snd (build n c False None ?m))"
    by (rule build_shape)
  ultimately have "same_shape st (snd (build n c False None ?m))"
    by (rule same_shape_trans)
  with Composer show ?thesis
    by (auto simp: resolve_def split: prod.splits sum.splits)
qed

lemma resolve_returns:
  "renderable n st m \<Longrightarrow> \<exists>r st'. resolve n this m st = (Inr r, st')"
proof (cases "content m")
  case (Plain v)
  then show ?thesis by (simp add: resolve_def)
next
  case (Composer c)
  assume "renderable n st m"
  let ?m = "set_args c (prompt_args (prompts st this) ++ args (builders st c)) st"
  from \<open>renderable n st m\<close> Composer have "nesting_fits n (builders ?m) c"
    by (simp add: renderable_def same_shape_nesting_fits[of st ?m])
  from build_returns[OF this, of False None] Composer show ?thesis
    by (auto simp: resolve_def)
qed

lemma resolve_all_returns:
  "(\<forall>m \<in> set ms. renderable n st m) \<Longrightarrow> \<exists>rs st'. resolve_all n this ms st = (Inr rs, st')"
proof (induction ms arbitrary: st)
  case Nil
  show ?case by simp
next
  case (Cons m ms)
  from Cons.prems obtain r s1 where r: "resolve n this m st = (Inr r, s1)"
    using resolve_returns[of n st m this] by auto
  have "same_shape st s1"
    using resolve_shape[of st n this m] r by simp
  with Cons.prems have "\<forall>m \<in> set ms. renderable n s1 m"
    by (auto simp: renderable_def same_shape_nesting_fits split: content.splits)
  from Cons.IH[OF this] r show ?case
    by auto
qed

text \<open>
  Examples: \<^verbatim>\<open>p.userMessage("Q", { placeholder: "<q>" })\<close> on a new
  \<^verbatim>\<open>PromptBuilder\<close> (the object at reference 0), and the same after
  \<^verbatim>\<open>p.systemMessage("Setup")\<close>.
\<close>

definition placeholder_only :: state where
  "placeholder_only =
     snd (userMessage 0 (Scalar (Str ''Q''))
            (Some \<lparr>opt_placeholder = Some ''<q>'', opt_extra = None\<rparr>)
            (snd (new_PromptBuilder Map.empty init_state)))"

definition setup_and_question :: state where
  "setup_and_question =
     snd (userMessage 0 (Scalar (Str ''Q''))
            (Some \<lparr>opt_placeholder = Some ''<q>'', opt_extra = None\<rparr>)
            (snd (systemMessage 0 (Scalar (Str ''Setup'')) None
                    (snd (new_PromptBuilder Map.empty init_state)))))"

text \<open>
  C1, as stated, fails: with the single turn
  \<^verbatim>\<open>userMessage("Q", { placeholder: "<q>" })\<close> no system turn is kept, yet the
  context is \<^verbatim>\<open><q>\<close> and not \<^verbatim>\<open>undefined\<close>; and after
  \<^verbatim>\<open>systemMessage("Setup")\<close> the context is \<^verbatim>\<open>Setup\<close>, a newline and
  \<^verbatim>\<open><q>\<close>, not the system text alone.
\<close>

theorem context_defined_without_system_turn:
  "fst (buildForAssistant 1 0 None placeholder_only) =
     Inr \<lparr>out_messages = [(Str ''user'', ''Q'')], out_context = Some ''<q>''\<rparr>
   \<and> map role (filter (the_filter None) (prompt_messages (prompts placeholder_only 0))) = [Str ''user'']
   \<and> fst (buildForAssistant 1 0 None setup_and_question) =
     Inr \<lparr>out_messages = [(Str ''user'', ''Q'')], out_context = Some (''Setup'' @ [nl] @ ''<q>'')\<rparr>"
  by code_simp

text \<open>
  C1, amended.  When every kept turn can be resolved (its content is text, or a
  composer whose nesting fits the stack), \<^verbatim>\<open>buildForAssistant\<close> returns; the
  context is \<^verbatim>\<open>undefined\<close> exactly when no turn kept by the filter is a system
  turn or carries a non-empty placeholder; otherwise it is the newline-join, in append
  order, of the resolved text of each kept system turn and the placeholder of each
  other kept turn that has a non-empty one.  (Non-empty is what
  \<^verbatim>\<open>if (message.placeholder)\<close> tests of a text.)
\<close>

theorem buildForAssistant_context:
  assumes "\<forall>m \<in> set (filter (the_filter flt) (prompt_messages (prompts st this))).
             renderable n st m"
  shows "\<exists>res st' rs.
      buildForAssistant n this flt st = (Inr res, st')
    \<and> resolve_all n this
          (filter (the_filter flt) (prompt_messages (prompts st this))) st = (Inr rs, st')
    \<and> (out_context res = None \<longleftrightarrow>
          (\<forall>m \<in> set (filter (the_filter flt) (prompt_messages (prompts st this))).
             role m \<noteq> Str ''system'' \<and> \<not> truthy (placeholder m)))
    \<and> out_context res =
          (if context_parts rs = [] then None else Some (join [nl] (context_parts rs)))"
proof -
  let ?kept = "filter (the_filter flt) (prompt_messages (prompts st this))"
  from resolve_all_returns[OF assms] obtain rs st' where
    rs: "resolve_all n this ?kept st = (Inr rs, st')"
    by blast
  define res where "res = \<lparr>out_messages = thread_messages rs,
       out_context = (if length (context_parts rs) > 0
                      then Some (join [nl] (context_parts rs)) else None)\<rparr>"
  have b: "buildForAssistant n this flt st = (Inr res, st')"
    using rs by (simp add: buildForAssistant_def assistant_loop_eq res_def)
  have ctx: "out_context res =
      (if context_parts rs = [] then None else Some (join [nl] (context_parts rs)))"
    by (simp add: res_def)
  have "context_parts rs = [] \<longleftrightarrow>
      (\<forall>m \<in> set ?kept. role m \<noteq> Str ''system'' \<and> \<not> truthy (placeholder m))"
    using resolve_all_roles[OF rs] roles_placeholders_set[of rs ?kept]
    by (simp add: context_parts_empty)
  with ctx have none: "out_context res = None \<longleftrightarrow>
      (\<forall>m \<in> set ?kept. role m \<noteq> Str ''system'' \<and> \<not> truthy (placeholder m))"
    by simp
  show ?thesis
    by (intro exI[of _ res] exI[of _ st'] exI[of _ rs] conjI) (rule b rs none ctx)+
qed

theorem buildForAssistant_context_witness:
  "list_all (renderable 1 setup_and_question)
     (filter (the_filter None) (prompt_messages (prompts setup_and_question 0)))
   \<and> fst (buildForAssistant 1 0 None setup_and_question) =
       Inr \<lparr>out_messages = [(Str ''user'', ''Q'')], out_context = Some (''Setup'' @ [nl] @ ''<q>'')\<rparr>
   \<and> (\<exists>rs. fst (resolve_all 1 0
                    (filter (the_filter None) (prompt_messages (prompts setup_and_question 0)))
                    setup_and_question) = Inr rs
           \<and> Some (''Setup'' @ [nl] @ ''<q>'') =
               (if context_parts rs = [] then None else Some (join [nl] (context_parts rs))))"
proof -
  have r: "\<forall>m \<in> set (filter (the_filter None)
                        (prompt_messages (prompts setup_and_question 0))).
             renderable 1 setup_and_question m"
    by code_simp
  have v: "fst (buildForAssistant 1 0 None setup_and_question) =
       Inr \<lparr>out_messages = [(Str ''user'', ''Q'')], out_context = Some (''Setup'' @ [nl] @ ''<q>'')\<rparr>"
    by code_simp
  from buildForAssistant_context[OF r] obtain res st' rs where
    b: "buildForAssistant 1 0 None setup_and_question = (Inr res, st')" and
    rs: "resolve_all 1 0
           (filter (the_filter None) (prompt_messages (prompts setup_and_question 0)))
           setup_and_question = (Inr rs, st')" and
    c: "out_context res =
          (if context_parts rs = [] then None else Some (join [nl] (context_parts rs)))"
    by blast
  from b v have "out_context res = Some (''Setup'' @ [nl] @ ''<q>'')"
    by simp
  with c rs have "\<exists>rs. fst (resolve_all 1 0
                    (filter (the_filter None) (prompt_messages (prompts setup_and_question 0)))
                    setup_and_question) = Inr rs
           \<and> Some (''Setup'' @ [nl] @ ''<q>'') =
               (if context_parts rs = [] then None else Some (join [nl] (context_parts rs)))"
    by auto
  with r v show ?thesis by (simp add: list_all_iff)
qed

text \<open>
  C2.  \<^verbatim>\<open>p.userMessage((b) => { b.add(greeting) })\<close> with
  \<^verbatim>\<open>greeting = "Hello"\<close> stores a turn whose content is the composer (reference
  1).  The predicate \<^verbatim>\<open>(m) => typeof m.content === "string"\<close> is applied to the
  stored turn and rejects it, although the turn resolves to the text
  \<^verbatim>\<open>Hello\<close>: both build methods return nothing for it.
\<close>

definition sync_add_hello :: callback where
  "sync_add_hello =
     SyncFn ''(b) => { b.add(greeting) }''
       (\<lambda>b st. (Inr (), snd (add b (Scalar (Str ''Hello'')) st)))"

definition content_is_text :: MessageFilter where
  "content_is_text m = (case content m of Plain (Str s) \<Rightarrow> True | _ \<Rightarrow> False)"

definition composed_turn :: state where
  "composed_turn =
     snd (userMessage 0 (Function sync_add_hello) None
            (snd (new_PromptBuilder Map.empty init_state)))"

theorem filter_receives_unresolved_composer:
  "map content (prompt_messages (prompts composed_turn 0)) = [Composer 1]
   \<and> fst (PromptBuilder_build 1 0 None composed_turn) = Inr [(Str ''user'', ''Hello'')]
   \<and> fst (PromptBuilder_build 1 0 (Some content_is_text) composed_turn) = Inr []
   \<and> fst (buildForAssistant 1 0 (Some content_is_text) composed_turn)
        = Inr \<lparr>out_messages = [], out_context = None\<rparr>"
  by code_simp

text \<open>Rendering does not touch the prompt builders.\<close>

lemma set_args_prompts [simp]:
  "set_args c a (st\<lparr>prompts := P\<rparr>) = (set_args c a st)\<lparr>prompts := P\<rparr>"
  by (simp add: set_args_def)

lemma render_part_prompts:
  assumes "\<And>c w ind st. rec c w ind (st\<lparr>prompts := P\<rparr>) =
             (case rec c w ind st of (r, s) \<Rightarrow> (r, s\<lparr>prompts := P\<rparr>))"
  shows "render_part rec this indt p (st\<lparr>prompts := P\<rparr>) =
           (case render_part rec this indt p st of (r, s) \<Rightarrow> (r, s\<lparr>prompts := P\<rparr>))"
  using assms by (cases p) (simp_all add: render_part_def)

lemma build_parts_prompts:
  assumes "\<And>c w ind st. rec c w ind (st\<lparr>prompts := P\<rparr>) =
             (case rec c w ind st of (r, s) \<Rightarrow> (r, s\<lparr>prompts := P\<rparr>))"
  shows "build_parts rec this w indt ps (st\<lparr>prompts := P\<rparr>) =
           (case build_parts rec this w indt ps st of (r, s) \<Rightarrow> (r, s\<lparr>prompts := P\<rparr>))"
proof (induction ps arbitrary: st)
  case Nil
  then show ?case by simp
next
  case (Cons p ps)
  have "render_part rec this indt p (st\<lparr>prompts := P\<rparr>) =
      (case render_part rec this indt p st of (r, s) \<Rightarrow> (r, s\<lparr>prompts := P\<rparr>))"
    by (rule render_part_prompts) (rule assms)
  then show ?case
    by (simp add: Cons.IH split: prod.splits sum.splits)
qed

lemma effective_indent_prompts [simp]:
  "effective_indent ind a (st\<lparr>prompts := P\<rparr>) = effective_indent ind a st"
  by (simp add: effective_indent_def split: option.splits)

lemma build_prompts:
  "build n a w ind (st\<lparr>prompts := P\<rparr>) =
     (case build n a w ind st of (r, s) \<Rightarrow> (r, s\<lparr>prompts := P\<rparr>))"
proof (induction n arbitrary: a w ind st)
  case 0
  then show ?case by simp
next
  case (Suc n)
  have "build_parts (build n) a w indt ps (st\<lparr>prompts := P\<rparr>) =
      (case build_parts (build n) a w indt ps st of (r, s) \<Rightarrow> (r, s\<lparr>prompts := P\<rparr>))"
    for indt ps
    by (rule build_parts_prompts) (rule Suc.IH)
  then show ?case
    by (simp split: prod.splits sum.splits)
qed

lemma build_prompts_same: "prompts (snd (build n a w ind st)) = prompts st"
proof -
  obtain r s where b: "build n a w ind st = (r, s)"
    by (cases "build n a w ind st")
  have "build n a w ind (st\<lparr>prompts := prompts st\<rparr>) =
      (case build n a w ind st of (r, s) \<Rightarrow> (r, s\<lparr>prompts := prompts st\<rparr>))"
    by (rule build_prompts)
  then have "s = s\<lparr>prompts := prompts st\<rparr>"
    by (simp add: b)
  then have "prompts s = prompts (s\<lparr>prompts := prompts st\<rparr>)"
    by simp
  then show ?thesis using b by simp
qed

definition with_system_placeholder :: "(message \<Rightarrow> jsval option) \<Rightarrow> message \<Rightarrow> message" where
  "with_system_placeholder g m = (if role m = Str ''system'' then m\<lparr>placeholder := g m\<rparr> else m)"

definition set_system_placeholders :: "(message \<Rightarrow> jsval option) \<Rightarrow> addr \<Rightarrow> state \<Rightarrow> state" where
  "set_system_placeholders g this st =
     st\<lparr>prompts := (prompts st)
           (this := (prompts st this)
              \<lparr>prompt_messages :=
                 map (with_system_placeholder g) (prompt_messages (prompts st this))\<rparr>)\<rparr>"

definition drop_system_placeholder :: "resolved \<Rightarrow> resolved" where
  "drop_system_placeholder x =
     (case x of (r, c, p) \<Rightarrow> (r, c, if r = Str ''system'' then None else p))"

lemma context_parts_drop:
  "context_parts (map drop_system_placeholder rs) = context_parts rs"
  by (induction rs) (auto simp: context_parts_def drop_system_placeholder_def)

lemma thread_messages_drop:
  "thread_messages (map drop_system_placeholder rs) = thread_messages rs"
  by (induction rs) (auto simp: thread_messages_def drop_system_placeholder_def)

lemma pairs_drop:
  "map (\<lambda>(r, c, p). (r, c)) (map drop_system_placeholder rs) = map (\<lambda>(r, c, p). (r, c)) rs"
  by (induction rs) (auto simp: drop_system_placeholder_def)

lemma resolve_prompts_same: "prompts (snd (resolve n this m st)) = prompts st"
proof (cases "content m")
  case (Plain v)
  then show ?thesis by (simp add: resolve_def)
next
  case (Composer c)
  let ?st1 = "set_args c (prompt_args (prompts st this) ++ args (builders st c)) st"
  have "prompts (snd (build n c False None ?st1)) = prompts ?st1"
    by (rule build_prompts_same)
  then show ?thesis
    using Composer by (auto simp: resolve_def set_args_def split: prod.splits sum.splits)
qed

lemma resolve_system_placeholder:
  assumes "prompt_args (P this) = prompt_args (prompts st this)"
      and "role m' = role m" and "content m' = content m"
      and "role m \<noteq> Str ''system'' \<Longrightarrow> placeholder m' = placeholder m"
  shows "resolve n this m' (st\<lparr>prompts := P\<rparr>) =
           (case resolve n this m st of
              (Inl e, s) \<Rightarrow> (Inl e, s\<lparr>prompts := P\<rparr>)
            | (Inr (r, c, p), s) \<Rightarrow> (Inr (r, c, placeholder m'), s\<lparr>prompts := P\<rparr>))"
  using assms
  by (cases "content m")
     (simp_all add: resolve_def build_prompts split: prod.splits sum.splits)

lemma resolve_all_system_placeholder:
  assumes P: "prompt_args (P this) = prompt_args (prompts st this)"
      and h: "\<And>m. role (h m) = role m \<and> content (h m) = content m
                   \<and> (role m \<noteq> Str ''system'' \<longrightarrow> placeholder (h m) = placeholder m)"
  shows "snd (resolve_all n this (map h ms) (st\<lparr>prompts := P\<rparr>))
           = (snd (resolve_all n this ms st))\<lparr>prompts := P\<rparr>
       \<and> map_sum id (map drop_system_placeholder)
             (fst (resolve_all n this (map h ms) (st\<lparr>prompts := P\<rparr>)))
           = map_sum id (map drop_system_placeholder) (fst (resolve_all n this ms st))"
  using P
proof (induction ms arbitrary: st)
  case Nil
  then show ?case by simp
next
  case (Cons m ms)
  have r: "resolve n this (h m) (st\<lparr>prompts := P\<rparr>) =
           (case resolve n this m st of
              (Inl e, s) \<Rightarrow> (Inl e, s\<lparr>prompts := P\<rparr>)
            | (Inr (r, c, p), s) \<Rightarrow> (Inr (r, c, placeholder (h m)), s\<lparr>prompts := P\<rparr>))"
    using Cons.prems h[of m] by (intro resolve_system_placeholder) auto
  show ?case
  proof (cases "resolve n this m st")
    case (Pair res s)
    show ?thesis
    proof (cases res)
      case (Inl e)
      with Pair r show ?thesis by simp
    next
      case (Inr x)
      obtain ro c p where x: "x = (ro, c, p)" by (cases x)
      have ro: "ro = role m" and p: "p = placeholder m"
        using resolve_role[of n this m st x s] Pair Inr x by auto
      have "prompts s = prompts st"
        using resolve_prompts_same[of n this m st] Pair by simp
      then have "prompt_args (P this) = prompt_args (prompts s this)"
        using Cons.prems by simp
      from Cons.IH[OF this] Pair Inr x r ro p h[of m]
      show ?thesis
        by (cases "resolve_all n this ms s"; cases "resolve_all n this (map h ms) (s\<lparr>prompts := P\<rparr>)")
           (auto simp: drop_system_placeholder_def split: sum.splits)
    qed
  qed
qed

text \<open>
  Replace the placeholder of every system turn of a prompt builder by anything (\<open>g\<close>
  chooses, per turn).  Neither \<^verbatim>\<open>buildForAssistant\<close> nor
  \<^verbatim>\<open>build\<close> returns anything different, as long as the caller's predicate
  decides as it did: the results with the new placeholders are the results with the old
  ones under the predicate that looks at the new ones.
\<close>

lemma system_placeholder_frame:
  "fst (buildForAssistant n this flt (set_system_placeholders g this st))
     = fst (buildForAssistant n this
              (Some (\<lambda>m. the_filter flt (with_system_placeholder g m))) st)
   \<and> fst (PromptBuilder_build n this flt (set_system_placeholders g this st))
     = fst (PromptBuilder_build n this
              (Some (\<lambda>m. the_filter flt (with_system_placeholder g m))) st)"
proof -
  let ?h = "with_system_placeholder g"
  let ?f = "Some (\<lambda>m. the_filter flt (?h m))"
  let ?ms = "prompt_messages (prompts st this)"
  let ?P = "(prompts st)(this := (prompts st this)\<lparr>prompt_messages := map ?h ?ms\<rparr>)"
  let ?st2 = "set_system_placeholders g this st"
  let ?kept = "filter (the_filter ?f) ?ms"
  have st2: "?st2 = st\<lparr>prompts := ?P\<rparr>"
    by (simp add: set_system_placeholders_def)
  have tf: "the_filter ?f = (\<lambda>m. the_filter flt (?h m))"
    by (rule ext) (simp add: the_filter_def)
  have kept: "filter (the_filter flt) (map ?h ?ms) = map ?h ?kept"
    by (simp only: tf filter_map o_def)
  have "map_sum id (map drop_system_placeholder)
          (fst (resolve_all n this (map ?h ?kept) (st\<lparr>prompts := ?P\<rparr>)))
      = map_sum id (map drop_system_placeholder) (fst (resolve_all n this ?kept st))"
    by (rule resolve_all_system_placeholder[THEN conjunct2])
       (auto simp: with_system_placeholder_def)
  then have eq: "map_sum id (map drop_system_placeholder)
          (fst (resolve_all n this
                  (filter (the_filter flt) (prompt_messages (prompts ?st2 this))) ?st2))
      = map_sum id (map drop_system_placeholder) (fst (resolve_all n this ?kept st))"
    using kept by (simp add: st2)
  obtain r1 s1 where a: "resolve_all n this
      (filter (the_filter flt) (prompt_messages (prompts ?st2 this))) ?st2 = (r1, s1)"
    by (cases "resolve_all n this
      (filter (the_filter flt) (prompt_messages (prompts ?st2 this))) ?st2")
  obtain r2 s2 where b: "resolve_all n this ?kept st = (r2, s2)"
    by (cases "resolve_all n this ?kept st")
  from eq a b have rel: "map_sum id (map drop_system_placeholder) r1
      = map_sum id (map drop_system_placeholder) r2"
    by simp
  show ?thesis
  proof (cases r2)
    case (Inl e)
    with rel have "r1 = Inl e" by (cases r1) auto
    with Inl a b show ?thesis
      by (simp add: buildForAssistant_def PromptBuilder_build_def)
  next
    case (Inr rs2)
    with rel obtain rs1 where r1: "r1 = Inr rs1"
      and m: "map drop_system_placeholder rs1 = map drop_system_placeholder rs2"
      by (cases r1) auto
    have "context_parts rs1 = context_parts rs2" "thread_messages rs1 = thread_messages rs2"
      "map (\<lambda>(r, c, p). (r, c)) rs1 = map (\<lambda>(r, c, p). (r, c)) rs2"
      using m context_parts_drop thread_messages_drop pairs_drop by metis+
    with Inr r1 a b show ?thesis
      by (simp add: buildForAssistant_def PromptBuilder_build_def assistant_loop_eq)
  qed
qed

text \<open>What one turn among the kept ones contributes.\<close>

lemma resolve_all_append:
  "resolve_all n this (xs @ ys) st =
     (case resolve_all n this xs st of
        (Inl e, s) \<Rightarrow> (Inl e, s)
      | (Inr rs1, s1) \<Rightarrow>
          (case resolve_all n this ys s1 of
             (Inl e, s) \<Rightarrow> (Inl e, s)
           | (Inr rs2, s2) \<Rightarrow> (Inr (rs1 @ rs2), s2)))"
proof (induction xs arbitrary: st)
  case Nil
  show ?case by (simp split: prod.splits sum.splits)
next
  case (Cons x xs)
  show ?case
    by (simp add: Cons.IH split: prod.splits sum.splits)
qed

lemma resolve_all_split:
  assumes "resolve_all n this (pre @ m # post) st = (Inr rs, st')"
  shows "\<exists>rs1 s1 r s2 rs2.
           resolve_all n this pre st = (Inr rs1, s1)
         \<and> resolve n this m s1 = (Inr r, s2)
         \<and> resolve_all n this post s2 = (Inr rs2, st')
         \<and> rs = rs1 @ r # rs2"
  using assms
  by (auto simp: resolve_all_append split: prod.splits sum.splits)

lemma resolve_Inr:
  assumes "resolve n this m st = (Inr r, st')"
  shows "\<exists>txt. r = (role m, txt, placeholder m)
         \<and> (case content m of
               Plain v \<Rightarrow> txt = js_toString v \<and> st' = st
             | Composer c \<Rightarrow>
                 build n c False None
                   (set_args c (prompt_args (prompts st this) ++ args (builders st c)) st)
                 = (Inr txt, st'))"
  using assms
  by (cases "content m") (auto simp: resolve_def split: prod.splits sum.splits)

lemma context_parts_append:
  "context_parts (xs @ ys) = context_parts xs @ context_parts ys"
  by (simp add: context_parts_def)

lemma thread_messages_append:
  "thread_messages (xs @ ys) = thread_messages xs @ thread_messages ys"
  by (simp add: thread_messages_def)

lemma context_parts_Cons:
  "context_parts ((r, c, p) # rs) =
     (if r = Str ''system'' then [c] else if truthy p then [js_toString (the p)] else [])
       @ context_parts rs"
  by (simp add: context_parts_def)

lemma thread_messages_Cons:
  "thread_messages ((r, c, p) # rs) =
     (if r = Str ''system'' then [] else [(r, c)]) @ thread_messages rs"
  by (simp add: thread_messages_def)

lemma buildForAssistant_Inr:
  assumes "resolve_all n this
             (filter (the_filter flt) (prompt_messages (prompts st this))) st = (Inr rs, st')"
  shows "buildForAssistant n this flt st =
           (Inr \<lparr>out_messages = thread_messages rs,
                 out_context = (if context_parts rs = [] then None
                                else Some (join [nl] (context_parts rs)))\<rparr>, st')"
  using assms by (simp add: buildForAssistant_def assistant_loop_eq)

text \<open>
  A turn is a system turn when its stored role is \<^verbatim>\<open>"system"\<close>.  That is the
  role \<^verbatim>\<open>systemMessage\<close> stores, unless the metadata has a role of its own:
  \<^verbatim>\<open>systemMessage("Setup", { placeholder: "<setup>", extra: { role: "user" } })\<close>
  stores a user turn, which is treated as one.
\<close>

lemma make_message_plain:
  assumes "the_extra opts ''role'' = None" "the_extra opts ''content'' = None"
    "the_extra opts ''placeholder'' = None"
  shows "role (make_message r c opts) = Str (role_name r)"
    "content (make_message r c opts) = c"
    "placeholder (make_message r c opts)
       = (case opts of None \<Rightarrow> None | Some opt \<Rightarrow> map_option Str (opt_placeholder opt))"
  using assms by (simp_all add: make_message_def)

definition role_in_extra :: state where
  "role_in_extra =
     snd (systemMessage 0 (Scalar (Str ''Setup''))
            (Some \<lparr>opt_placeholder = Some ''<setup>'',
                   opt_extra = Some (Map.empty(''role'' \<mapsto> Str ''user''))\<rparr>)
            (snd (new_PromptBuilder Map.empty init_state)))"

lemma systemMessage_role_in_extra:
  "map role (prompt_messages (prompts role_in_extra 0)) = [Str ''user'']
   \<and> map placeholder (prompt_messages (prompts role_in_extra 0)) = [Some (Str ''<setup>'')]
   \<and> fst (buildForAssistant 1 0 None role_in_extra)
       = Inr \<lparr>out_messages = [(Str ''user'', ''Setup'')], out_context = Some ''<setup>''\<rparr>"
  by code_simp

text \<open>
  C10.  When every kept turn can be resolved, \<^verbatim>\<open>buildForAssistant\<close> returns.
  Take any kept turn, with the kept turns before and after it.  Its text is the text
  form of its plain content, or what \<^verbatim>\<open>build()\<close> returns for its composer
  after the builder's arguments were merged under the composer's own, in the state the
  turns before it left.  If it is a system turn, that text, and not its placeholder, stands
  in the context between what the turns before and the turns after contribute, and the
  turn is not among the messages.  If it is not a system turn, it stands among the
  messages with that text, and the context has its placeholder at that place when the
  placeholder passes \<^verbatim>\<open>if (message.placeholder)\<close>, and nothing otherwise.
  Further, whatever the placeholders of the system turns are replaced by (\<open>g\<close>),
  \<^verbatim>\<open>buildForAssistant\<close> and \<^verbatim>\<open>build\<close> return what they returned
  before, the caller's predicate deciding as it did.
\<close>

theorem system_turn_contributes_content:
  assumes "\<forall>m \<in> set (filter (the_filter flt) (prompt_messages (prompts st this))).
             renderable n st m"
  shows "\<exists>res st'.
      buildForAssistant n this flt st = (Inr res, st')
    \<and> (\<forall>pre m post.
          filter (the_filter flt) (prompt_messages (prompts st this)) = pre @ m # post \<longrightarrow>
          (\<exists>rs1 s1 txt s2 rs2.
             resolve_all n this pre st = (Inr rs1, s1)
           \<and> (case content m of
                 Plain v \<Rightarrow> txt = js_toString v \<and> s2 = s1
               | Composer c \<Rightarrow>
                   build n c False None
                     (set_args c (prompt_args (prompts s1 this) ++ args (builders s1 c)) s1)
                   = (Inr txt, s2))
           \<and> resolve_all n this post s2 = (Inr rs2, st')
           \<and> (role m = Str ''system'' \<longrightarrow>
                  out_context res
                    = Some (join [nl] (context_parts rs1 @ [txt] @ context_parts rs2))
                \<and> out_messages res = thread_messages rs1 @ thread_messages rs2)
           \<and> (role m \<noteq> Str ''system'' \<longrightarrow>
                  out_context res
                    = (if context_parts rs1
                            @ (if truthy (placeholder m) then [js_toString (the (placeholder m))]
                               else [])
                            @ context_parts rs2 = []
                       then None
                       else Some (join [nl]
                              (context_parts rs1
                                 @ (if truthy (placeholder m)
                                    then [js_toString (the (placeholder m))] else [])
                                 @ context_parts rs2)))
                \<and> out_messages res
                    = thread_messages rs1 @ [(role m, txt)] @ thread_messages rs2)))
    \<and> fst (buildForAssistant n this flt (set_system_placeholders g this st))
        = fst (buildForAssistant n this
                 (Some (\<lambda>m. the_filter flt (with_system_placeholder g m))) st)
    \<and> fst (PromptBuilder_build n this flt (set_system_placeholders g this st))
        = fst (PromptBuilder_build n this
                 (Some (\<lambda>m. the_filter flt (with_system_placeholder g m))) st)"
proof -
  let ?kept = "filter (the_filter flt) (prompt_messages (prompts st this))"
  from resolve_all_returns[OF assms] obtain rs st' where
    rs: "resolve_all n this ?kept st = (Inr rs, st')"
    by blast
  define res where "res = \<lparr>out_messages = thread_messages rs,
       out_context = (if context_parts rs = [] then None
                      else Some (join [nl] (context_parts rs)))\<rparr>"
  have b: "buildForAssistant n this flt st = (Inr res, st')"
    using buildForAssistant_Inr[OF rs] by (simp add: res_def)
  have turn: "\<exists>rs1 s1 txt s2 rs2.
             resolve_all n this pre st = (Inr rs1, s1)
           \<and> (case content m of
                 Plain v \<Rightarrow> txt = js_toString v \<and> s2 = s1
               | Composer c \<Rightarrow>
                   build n c False None
                     (set_args c (prompt_args (prompts s1 this) ++ args (builders s1 c)) s1)
                   = (Inr txt, s2))
           \<and> resolve_all n this post s2 = (Inr rs2, st')
           \<and> (role m = Str ''system'' \<longrightarrow>
                  out_context res
                    = Some (join [nl] (context_parts rs1 @ [txt] @ context_parts rs2))
                \<and> out_messages res = thread_messages rs1 @ thread_messages rs2)
           \<and> (role m \<noteq> Str ''system'' \<longrightarrow>
                  out_context res
                    = (if context_parts rs1
                            @ (if truthy (placeholder m) then [js_toString (the (placeholder m))]
                               else [])
                            @ context_parts rs2 = []
                       then None
                       else Some (join [nl]
                              (context_parts rs1
                                 @ (if truthy (placeholder m)
                                    then [js_toString (the (placeholder m))] else [])
                                 @ context_parts rs2)))
                \<and> out_messages res
                    = thread_messages rs1 @ [(role m, txt)] @ thread_messages rs2)"
    if k: "?kept = pre @ m # post" for pre m post
  proof -
    from rs k have "resolve_all n this (pre @ m # post) st = (Inr rs, st')"
      by simp
    from resolve_all_split[OF this] obtain rs1 s1 r s2 rs2 where
      p1: "resolve_all n this pre st = (Inr rs1, s1)" and
      p2: "resolve n this m s1 = (Inr r, s2)" and
      p3: "resolve_all n this post s2 = (Inr rs2, st')" and
      p4: "rs = rs1 @ r # rs2"
      by blast
    from resolve_Inr[OF p2] obtain out where
      r: "r = (role m, out, placeholder m)" and
      c: "case content m of
            Plain v \<Rightarrow> out = js_toString v \<and> s2 = s1
          | Composer c \<Rightarrow>
              build n c False None
                (set_args c (prompt_args (prompts s1 this) ++ args (builders s1 c)) s1)
              = (Inr out, s2)"
      by blast
    have cp: "context_parts rs = context_parts rs1
        @ (if role m = Str ''system'' then [out]
           else if truthy (placeholder m) then [js_toString (the (placeholder m))] else [])
        @ context_parts rs2"
      by (simp only: p4 r context_parts_append context_parts_Cons append_assoc)
    have tm: "thread_messages rs = thread_messages rs1
        @ (if role m = Str ''system'' then [] else [(role m, out)])
        @ thread_messages rs2"
      by (simp only: p4 r thread_messages_append thread_messages_Cons append_assoc)
    have sys: "role m = Str ''system'' \<longrightarrow>
                  out_context res
                    = Some (join [nl] (context_parts rs1 @ [out] @ context_parts rs2))
                \<and> out_messages res = thread_messages rs1 @ thread_messages rs2"
      by (simp add: res_def cp tm)
    have oth: "role m \<noteq> Str ''system'' \<longrightarrow>
                  out_context res
                    = (if context_parts rs1
                            @ (if truthy (placeholder m) then [js_toString (the (placeholder m))]
                               else [])
                            @ context_parts rs2 = []
                       then None
                       else Some (join [nl]
                              (context_parts rs1
                                 @ (if truthy (placeholder m)
                                    then [js_toString (the (placeholder m))] else [])
                                 @ context_parts rs2)))
                \<and> out_messages res
                    = thread_messages rs1 @ [(role m, out)] @ thread_messages rs2"
      by (simp add: res_def cp tm)
    from p1 c p3 sys oth show ?thesis
      by blast
  qed
  from b turn system_placeholder_frame[of n this flt g st] show ?thesis
    by blast
qed

text \<open>
  An example:
  \<^verbatim>\<open>const p = new PromptBuilder({ topic: "X" })\<close> (the object at reference 0),
  \<^verbatim>\<open>p.systemMessage(msg("Setup {{topic}}"), { placeholder: "<setup>" })\<close> (the
  composer is the object at reference 1), and
  \<^verbatim>\<open>p.userMessage("Q", { placeholder: "<q>" })\<close>.  The context is the rendered
  composer and the placeholder of the user turn, with and without the placeholder of the
  system turn.
\<close>

definition templated_setup :: state where
  "templated_setup =
     snd (userMessage 0 (Scalar (Str ''Q''))
            (Some \<lparr>opt_placeholder = Some ''<q>'', opt_extra = None\<rparr>)
       (snd (systemMessage 0 (Instance 1)
               (Some \<lparr>opt_placeholder = Some ''<setup>'', opt_extra = None\<rparr>)
          (snd (add 1 (Scalar (Str ''Setup {{topic}}''))
             (snd (new_MessageBuilder None Map.empty
                (snd (new_PromptBuilder (Map.empty(''topic'' \<mapsto> Str ''X''))
                        init_state)))))))))"

theorem system_turn_contributes_content_witness:
  "list_all (renderable 1 templated_setup)
     (filter (the_filter None) (prompt_messages (prompts templated_setup 0)))
   \<and> map role (prompt_messages (prompts templated_setup 0)) = [Str ''system'', Str ''user'']
   \<and> map content (prompt_messages (prompts templated_setup 0)) = [Composer 1, Plain (Str ''Q'')]
   \<and> map placeholder (prompt_messages (prompts templated_setup 0))
       = [Some (Str ''<setup>''), Some (Str ''<q>'')]
   \<and> fst (buildForAssistant 1 0 None templated_setup)
       = Inr \<lparr>out_messages = [(Str ''user'', ''Q'')],
              out_context = Some (''Setup X'' @ [nl] @ ''<q>'')\<rparr>
   \<and> fst (buildForAssistant 1 0 None (set_system_placeholders (\<lambda>m. None) 0 templated_setup))
       = Inr \<lparr>out_messages = [(Str ''user'', ''Q'')],
              out_context = Some (''Setup X'' @ [nl] @ ''<q>'')\<rparr>"
proof -
  let ?S = "templated_setup"
  have r: "\<forall>m \<in> set (filter (the_filter None) (prompt_messages (prompts ?S 0))).
             renderable 1 ?S m"
    by code_simp
  have ro: "map role (prompt_messages (prompts ?S 0)) = [Str ''system'', Str ''user'']"
    by code_simp
  have pl: "map placeholder (prompt_messages (prompts ?S 0))
       = [Some (Str ''<setup>''), Some (Str ''<q>'')]"
    by code_simp
  have co: "map content (prompt_messages (prompts ?S 0)) = [Composer 1, Plain (Str ''Q'')]"
    by code_simp
  have bu: "fst (build 1 1 False None
                   (set_args 1 (prompt_args (prompts ?S 0) ++ args (builders ?S 1)) ?S))
       = Inr ''Setup X''"
    by code_simp
  obtain m1 m2 where k: "prompt_messages (prompts ?S 0) = [m1, m2]"
    using ro by (cases "prompt_messages (prompts ?S 0)") auto
  have kept: "filter (the_filter None) (prompt_messages (prompts ?S 0)) = [] @ m1 # [m2]"
    using k by (simp add: the_filter_def)
  have m1: "role m1 = Str ''system''" "content m1 = Composer 1"
    and m2: "role m2 = Str ''user''" "content m2 = Plain (Str ''Q'')"
         "placeholder m2 = Some (Str ''<q>'')"
    using ro pl co k by simp_all
  from system_turn_contributes_content[OF r, of "\<lambda>m. None"] obtain res st' where
    b: "buildForAssistant 1 0 None ?S = (Inr res, st')" and
    t: "\<forall>pre m post.
          filter (the_filter None) (prompt_messages (prompts ?S 0)) = pre @ m # post \<longrightarrow>
          (\<exists>rs1 s1 txt s2 rs2.
             resolve_all 1 0 pre ?S = (Inr rs1, s1)
           \<and> (case content m of
                 Plain v \<Rightarrow> txt = js_toString v \<and> s2 = s1
               | Composer c \<Rightarrow>
                   build 1 c False None
                     (set_args c (prompt_args (prompts s1 0) ++ args (builders s1 c)) s1)
                   = (Inr txt, s2))
           \<and> resolve_all 1 0 post s2 = (Inr rs2, st')
           \<and> (role m = Str ''system'' \<longrightarrow>
                  out_context res
                    = Some (join [nl] (context_parts rs1 @ [txt] @ context_parts rs2))
                \<and> out_messages res = thread_messages rs1 @ thread_messages rs2)
           \<and> (role m \<noteq> Str ''system'' \<longrightarrow>
                  out_context res
                    = (if context_parts rs1
                            @ (if truthy (placeholder m) then [js_toString (the (placeholder m))]
                               else [])
                            @ context_parts rs2 = []
                       then None
                       else Some (join [nl]
                              (context_parts rs1
                                 @ (if truthy (placeholder m)
                                    then [js_toString (the (placeholder m))] else [])
                                 @ context_parts rs2)))
                \<and> out_messages res
                    = thread_messages rs1 @ [(role m, txt)] @ thread_messages rs2))" and
    f: "fst (buildForAssistant 1 0 None (set_system_placeholders (\<lambda>m. None) 0 ?S))
        = fst (buildForAssistant 1 0
                 (Some (\<lambda>m. the_filter None (with_system_placeholder (\<lambda>m. None) m))) ?S)"
    by blast
  from t kept obtain rs1 s1 out s2 rs2 where
    p1: "resolve_all 1 0 [] ?S = (Inr rs1, s1)" and
    c: "case content m1 of
          Plain v \<Rightarrow> out = js_toString v \<and> s2 = s1
        | Composer c \<Rightarrow>
            build 1 c False None
              (set_args c (prompt_args (prompts s1 0) ++ args (builders s1 c)) s1)
            = (Inr out, s2)" and
    p3: "resolve_all 1 0 [m2] s2 = (Inr rs2, st')" and
    sys: "role m1 = Str ''system'' \<longrightarrow>
            out_context res
              = Some (join [nl] (context_parts rs1 @ [out] @ context_parts rs2))
          \<and> out_messages res = thread_messages rs1 @ thread_messages rs2"
    by blast
  from p1 have rs1: "rs1 = []" and s1: "s1 = ?S" by simp_all
  from c m1 s1 bu have out: "out = ''Setup X''" by simp
  from p3 m2 have rs2: "rs2 = [(Str ''user'', ''Q'', Some (Str ''<q>''))]"
    by (auto simp: resolve_def)
  from sys m1 rs1 out rs2 have
    "out_context res = Some (''Setup X'' @ [nl] @ ''<q>'')"
    "out_messages res = [(Str ''user'', ''Q'')]"
    by (simp_all add: context_parts_def thread_messages_def)
  then have res: "res = \<lparr>out_messages = [(Str ''user'', ''Q'')],
              out_context = Some (''Setup X'' @ [nl] @ ''<q>'')\<rparr>"
    by (cases res) simp
  have tf: "(Some (\<lambda>m. the_filter None (with_system_placeholder (\<lambda>m. None) m)))
       = Some (\<lambda>m. True)"
    by (simp add: the_filter_def)
  have same: "buildForAssistant 1 0 (Some (\<lambda>m. True)) ?S = buildForAssistant 1 0 None ?S"
    by (simp add: buildForAssistant_def the_filter_def)
  from b res have v: "fst (buildForAssistant 1 0 None ?S)
       = Inr \<lparr>out_messages = [(Str ''user'', ''Q'')],
              out_context = Some (''Setup X'' @ [nl] @ ''<q>'')\<rparr>"
    by simp
  with f tf same have "fst (buildForAssistant 1 0 None
                              (set_system_placeholders (\<lambda>m. None) 0 ?S))
       = Inr \<lparr>out_messages = [(Str ''user'', ''Q'')],
              out_context = Some (''Setup X'' @ [nl] @ ''<q>'')\<rparr>"
    by simp
  with r ro pl co v show ?thesis
    by (simp add: list_all_iff)
qed

end
